theory Spec2Isabelle
  imports Main "HOL-Library.Word" "HOL-Library.Multiset"
begin

section \<open>Data model of HWTopoLinux.cpp\<close>

text \<open>
  The struct \<open>cpuinfo\<close> (lines 47-57). Every \<open>unsigned\<close> field is a 32-bit word;
  comparison on words is the unsigned comparison of C++.
\<close>

record cpuinfo =
  proc :: "32 word"
  physid :: "32 word"
  sib :: "32 word"
  coreid :: "32 word"
  cpucores :: "32 word"
  numaNode :: "32 word"
  valid :: bool
  smt :: bool

text \<open>
  The value-initialised record that \<open>vals.resize\<close> appends: all fields zero, both
  flags false.
\<close>

definition cpuinfo0 :: cpuinfo where
  "cpuinfo0 = \<lparr>proc = 0, physid = 0, sib = 0, coreid = 0, cpucores = 0, numaNode = 0,
     valid = False, smt = False\<rparr>"

text \<open>
  Modelled from the spec: the structs \<open>ThreadTopoInfo\<close>, \<open>MachineTopoInfo\<close> and
  \<open>HWTopoInfo\<close> are declared in katana/HWTopo.h, which is not among the sources. The
  fields follow the data model of the specification, in the order in which
  \<open>makeHWTopo\<close> (lines 286-290) initialises them: compact thread id, leader, package
  rank, NUMA rank, running maximum of the package rank, OS processor id, OS NUMA node id.
  Counts and positions are natural numbers: they are bounded by the number of records,
  which \<open>parseCPUInfo\<close> keeps below \<open>2 ^ 31\<close>.
\<close>

record ThreadTopoInfo =
  tid :: nat
  socketLeader :: nat
  socket :: nat
  numaRank :: nat
  cumulativeMaxSocket :: nat
  osContext :: "32 word"
  osNumaNode :: "32 word"

record MachineTopoInfo =
  maxThreads :: nat
  maxCores :: nat
  maxSockets :: nat
  maxNumaNodes :: nat

record HWTopoInfo =
  machineTopoInfo :: MachineTopoInfo
  threadTopoInfo :: "ThreadTopoInfo list"

text \<open>
  What can stop the process: an uncaught \<open>std::out_of_range\<close> of \<open>vector::at\<close>, an
  uncaught \<open>std::length_error\<close> of \<open>vector::resize\<close>, \<open>KATANA_SYS_DIE\<close>, a failed
  \<open>KATANA_LOG_DEBUG_ASSERT\<close> of a debug build, and behaviour that C++ leaves
  undefined (a \<open>%d\<close> conversion that does not fit an \<open>int\<close>, \<open>cur + 1\<close> at
  \<open>INT_MAX\<close>, a call through a null function pointer).
\<close>

datatype failure = OutOfRange | LengthError | SysDie | AssertFailed | Undefined

text \<open>
  Modelled from the spec: \<open>katana::gWarn\<close> is declared in katana/gIO.h, which is not
  among the sources; the specification calls it an injected diagnostic sink. A
  diagnostic is the list of the arguments of the call, a text or a number each.
\<close>

datatype warn_arg = Txt string | Num "32 word"

text \<open>
  The static variables of the translation unit: \<open>warnOnce\<close> and \<open>numaAvail\<close> of
  \<open>getNumaNode\<close>, the flag of \<open>KATANA_WARN_ONCE\<close> in \<open>bindThreadSelf\<close>, the
  cached \<open>data\<close> of \<open>getHWTopo\<close>, and the diagnostic sink that \<open>gWarn\<close> writes to.
\<close>

record pstate =
  warnOnce :: bool
  numaAvail :: bool
  bindWarned :: bool
  data :: "HWTopoInfo option"
  diag :: "warn_arg list list"

definition pstate0 :: pstate where
  "pstate0 = \<lparr>warnOnce = False, numaAvail = False, bindWarned = False, data = None,
     diag = []\<rparr>"

text \<open>
  What the process reads from outside. The compile-time switches \<open>KATANA_USE_NUMA\<close>,
  \<open>KATANA_USE_SCHED_SETAFFINITY\<close> and the debug build are flags. The three symbols
  that \<open>LoadLibNuma\<close> fetches are \<open>None\<close> when \<open>dlopen\<close> or \<open>dlsym\<close> yields a null
  pointer, and otherwise what a call returns. A file is the list of lines that
  \<open>std::getline\<close> yields, \<open>None\<close> when the stream cannot be opened.
  \<open>katana::parseCPUList\<close> is defined outside the sources and is a parameter.
  \<open>sched_setaffinity\<close> maps the mask (the set of contexts whose bit is set) to its
  return value and the text of \<open>strerror(errno)\<close>.
\<close>

record system =
  use_numa :: bool
  use_sched_setaffinity :: bool
  debug_build :: bool
  numa_available :: "int option"
  numa_num_configured_nodes :: "int option"
  numa_node_of_cpu :: "(32 word \<Rightarrow> int) option"
  cpuinfo_file :: "string list option"
  status_file :: "string list option"
  parseCPUList :: "string \<Rightarrow> int list"
  sched_setaffinity :: "32 word set \<Rightarrow> int \<times> string"

section \<open>Sorting and SMT classification\<close>

text \<open>\<open>operator<\<close> on \<open>cpuinfo\<close> (lines 59-68).\<close>

definition cpuinfo_less :: "cpuinfo \<Rightarrow> cpuinfo \<Rightarrow> bool" where
  "cpuinfo_less lhs rhs =
     (if smt lhs \<noteq> smt rhs then smt lhs < smt rhs
      else if physid lhs \<noteq> physid rhs then physid lhs < physid rhs
      else if coreid lhs \<noteq> coreid rhs then coreid lhs < coreid rhs
      else proc lhs < proc rhs)"

text \<open>
  \<open>std::sort(info.begin(), info.end())\<close>: C++ leaves the order of records that compare
  equivalent open; the model is the insertion sort that keeps them in their order.
\<close>

fun sort_insert :: "cpuinfo \<Rightarrow> cpuinfo list \<Rightarrow> cpuinfo list" where
  "sort_insert x [] = [x]"
| "sort_insert x (y # ys) =
     (if cpuinfo_less y x then y # sort_insert x ys else x # y # ys)"

definition std_sort :: "cpuinfo list \<Rightarrow> cpuinfo list" where
  "std_sort info = foldr sort_insert info []"

text \<open>\<open>markSMT\<close> (lines 188-196): the loop runs over the positions 1, 2, ...\<close>

definition markSMT_step :: "nat \<Rightarrow> cpuinfo list \<Rightarrow> cpuinfo list" where
  "markSMT_step i info =
     (if physid (info ! (i - 1)) = physid (info ! i) \<and> coreid (info ! (i - 1)) = coreid (info ! i)
      then info[i := (info ! i)\<lparr>smt := True\<rparr>]
      else info[i := (info ! i)\<lparr>smt := False\<rparr>])"

definition markSMT :: "cpuinfo list \<Rightarrow> cpuinfo list" where
  "markSMT info = fold markSMT_step [1..<length info] info"

section \<open>The allowed set\<close>

text \<open>
  \<open>parseCPUSet\<close> (lines 198-230): the first line that starts with the prefix, with
  the prefix cut off, goes to \<open>parseCPUList\<close>; no such line, or no file, is the empty
  vector.
\<close>

definition cpus_prefix :: string where
  "cpus_prefix = ''Cpus_allowed_list:''"

fun first_with_prefix :: "string list \<Rightarrow> string option" where
  "first_with_prefix [] = None"
| "first_with_prefix (line # rest) =
     (if take (length cpus_prefix) line = cpus_prefix then Some line
      else first_with_prefix rest)"

definition parseCPUSet :: "system \<Rightarrow> int list" where
  "parseCPUSet sys =
     (case status_file sys of
        None \<Rightarrow> []
      | Some ls \<Rightarrow>
          (case first_with_prefix ls of
             None \<Rightarrow> []
           | Some line \<Rightarrow> parseCPUList sys (drop (length cpus_prefix) line)))"

text \<open>
  \<open>std::binary_search(v.begin(), v.end(), c.proc)\<close> on the vector that
  \<open>std::sort\<close> has put in the order of \<open>int\<close>, as libstdc++ runs it:
  \<open>std::lower_bound\<close> halves the range of \<open>len\<close> elements from \<open>first\<close> until
  it is empty, and the element it stops at is tested. Both comparisons are between an
  \<open>int\<close> of the vector and the \<open>unsigned\<close> processor id, and C++ converts the
  \<open>int\<close> to \<open>unsigned\<close> for them.
\<close>

function lower_bound :: "int list \<Rightarrow> 32 word \<Rightarrow> nat \<Rightarrow> nat \<Rightarrow> nat" where
  "lower_bound v val first len =
     (if 0 < len then
        (let half = len div 2;
             middle = first + half
         in if word_of_int (v ! middle) < val
            then lower_bound v val (middle + 1) (len - half - 1)
            else lower_bound v val first half)
      else first)"
  by pat_completeness auto
termination
  by (relation "measure (\<lambda>(v, val, first, len). len)") auto

declare lower_bound.simps [simp del]

definition binary_search :: "int list \<Rightarrow> 32 word \<Rightarrow> bool" where
  "binary_search v val =
     (let i = lower_bound v val 0 (length v)
      in i \<noteq> length v \<and> \<not> val < word_of_int (v ! i))"

text \<open>\<open>markValid\<close> (lines 232-243).\<close>

definition markValid :: "system \<Rightarrow> cpuinfo list \<Rightarrow> cpuinfo list" where
  "markValid sys info =
     (let v = parseCPUSet sys in
      if v = [] then map (\<lambda>c. c\<lparr>valid := True\<rparr>) info
      else (let v' = sort v in map (\<lambda>c. c\<lparr>valid := binary_search v' (proc c)\<rparr>) info))"

section \<open>Counting\<close>

text \<open>
  \<open>countSockets\<close>, \<open>countCores\<close>, \<open>countNumaNodes\<close> (lines 164-186): the size of
  a \<open>std::set\<close> after every key has been inserted. \<open>countCores\<close> converts both ids
  to \<open>int\<close> for the pair: \<open>sint\<close> reads the 32 bits as two's complement.
\<close>

definition countSockets :: "cpuinfo list \<Rightarrow> nat" where
  "countSockets info = card (set (map physid info))"

definition countCores :: "cpuinfo list \<Rightarrow> nat" where
  "countCores info =
     card (set (map (\<lambda>c. (sint (physid c), sint (coreid c))) info))"

definition countNumaNodes :: "cpuinfo list \<Rightarrow> nat" where
  "countNumaNodes info = card (set (map numaNode info))"

section \<open>Building the topology\<close>

text \<open>
  \<open>std::distance(s.begin(), s.find(x))\<close> on a \<open>std::set<unsigned>\<close>: the number of
  elements before \<open>x\<close> in the ascending order of the set, and the size of the set
  when \<open>x\<close> is not in it (\<open>find\<close> returns \<open>end()\<close>).
\<close>

definition set_rank :: "32 word set \<Rightarrow> 32 word \<Rightarrow> nat" where
  "set_rank s x = (if x \<in> s then card (Set.filter (\<lambda>y. y < x) s) else card s)"

text \<open>
  \<open>std::distance(info.begin(), std::find_if(info.begin(), info.end(), p))\<close>: the
  position of the first record that satisfies \<open>p\<close>, the length when there is none.
\<close>

definition find_if_pos :: "(cpuinfo \<Rightarrow> bool) \<Rightarrow> cpuinfo list \<Rightarrow> nat" where
  "find_if_pos p info = length (takeWhile (\<lambda>c. \<not> p c) info)"

text \<open>
  The records that \<open>makeHWTopo\<close> keeps, in their final order (lines 250-260): sort,
  \<open>markSMT\<close>, \<open>markValid\<close>, erase the invalid ones, sort again, \<open>markSMT\<close> again.
  \<open>std::partition\<close> leaves the order inside the valid part open; the sort that
  follows orders it.
\<close>

definition finalInfo :: "system \<Rightarrow> cpuinfo list \<Rightarrow> cpuinfo list" where
  "finalInfo sys vals =
     (let info = std_sort vals;
          info = markSMT info;
          info = markValid sys info;
          info = filter valid info;
          info = std_sort info
      in markSMT info)"

text \<open>One round of the loop of lines 276-291: the state is \<open>mid\<close> and \<open>retTTI\<close>.\<close>

definition tti_step ::
  "cpuinfo list \<Rightarrow> 32 word set \<Rightarrow> 32 word set \<Rightarrow> nat \<Rightarrow> nat \<times> ThreadTopoInfo list
    \<Rightarrow> nat \<times> ThreadTopoInfo list" where
  "tti_step info sockets numaNodes i st =
     (let mid = fst st;
          retTTI = snd st;
          pid = physid (info ! i);
          repid = set_rank sockets (physid (info ! i));
          mid = max mid repid;
          leader = find_if_pos (\<lambda>c. physid c = pid) info
      in (mid, retTTI @
            [\<lparr>tid = i, socketLeader = leader, socket = repid,
              numaRank = set_rank numaNodes (numaNode (info ! i)),
              cumulativeMaxSocket = mid, osContext = proc (info ! i),
              osNumaNode = numaNode (info ! i)\<rparr>]))"

text \<open>The rest of \<open>makeHWTopo\<close> (lines 261-296), on the final records.\<close>

definition topoOfFinal :: "cpuinfo list \<Rightarrow> HWTopoInfo" where
  "topoOfFinal info =
     (let retMTI = \<lparr>maxThreads = length info, maxCores = countCores info,
                     maxSockets = countSockets info, maxNumaNodes = countNumaNodes info\<rparr>;
          sockets = set (map physid info);
          numaNodes = set (map numaNode info);
          retTTI = snd (fold (tti_step info sockets numaNodes) [0..<length info] (0, []))
      in \<lparr>machineTopoInfo = retMTI, threadTopoInfo = retTTI\<rparr>)"

definition topoOf :: "system \<Rightarrow> cpuinfo list \<Rightarrow> HWTopoInfo" where
  "topoOf sys vals = topoOfFinal (finalInfo sys vals)"

section \<open>Reading /proc/cpuinfo\<close>

text \<open>
  \<open>sscanf(line.data(), format, &num) == 1\<close> for the five formats of lines 141-152,
  after ISO C: a white-space character of the format skips any white space of the
  input (none too), any other character must be the next one of the input, and
  \<open>%d\<close> skips white space, reads an optional sign and the longest run of decimal
  digits, and fails when there is no digit. The result is the number read, \<open>None\<close>
  when the call returns 0 or \<open>EOF\<close>. \<open>line.data()\<close> ends at the first NUL.
\<close>

definition isspace :: "char \<Rightarrow> bool" where
  "isspace c = (c \<in> set [CHR '' '', CHR 0x09, CHR 0x0A, CHR 0x0B, CHR 0x0C, CHR 0x0D])"

definition isdigit :: "char \<Rightarrow> bool" where
  "isdigit c = (c \<in> set ''0123456789'')"

definition digits_value :: "string \<Rightarrow> int" where
  "digits_value ds = foldl (\<lambda>acc d. 10 * acc + (int (of_char d) - 48)) 0 ds"

definition scan_d :: "string \<Rightarrow> int option" where
  "scan_d s =
     (let s1 = dropWhile isspace s;
          neg = (s1 \<noteq> [] \<and> hd s1 = CHR ''-'');
          s2 = (if s1 \<noteq> [] \<and> (hd s1 = CHR ''-'' \<or> hd s1 = CHR ''+'') then tl s1 else s1);
          ds = takeWhile isdigit s2
      in if ds = [] then None
         else Some (if neg then - digits_value ds else digits_value ds))"

fun scan_format :: "string \<Rightarrow> string \<Rightarrow> int option" where
  "scan_format s [] = None"
| "scan_format s (f # fs) =
     (if f = CHR ''%'' then scan_d s
      else if isspace f then scan_format (dropWhile isspace s) fs
      else (case s of
              [] \<Rightarrow> None
            | c # cs \<Rightarrow> if c = f then scan_format cs fs else None))"

definition sscanf :: "string \<Rightarrow> string \<Rightarrow> int option" where
  "sscanf line format = scan_format (takeWhile (\<lambda>c. c \<noteq> CHR 0x00) line) format"

text \<open>
  The branch of the chain of lines 141-154 that a line takes, with the number read.
\<close>

datatype cpu_line =
  Processor int | PhysicalId int | Siblings int | CoreId int | CpuCores int | Other

definition classify :: "string \<Rightarrow> cpu_line" where
  "classify line =
     (case sscanf line ''processor : %d'' of Some num \<Rightarrow> Processor num | None \<Rightarrow>
     (case sscanf line ''physical id : %d'' of Some num \<Rightarrow> PhysicalId num | None \<Rightarrow>
     (case sscanf line ''siblings : %d'' of Some num \<Rightarrow> Siblings num | None \<Rightarrow>
     (case sscanf line ''core id : %d'' of Some num \<Rightarrow> CoreId num | None \<Rightarrow>
     (case sscanf line ''cpu cores : %d'' of Some num \<Rightarrow> CpuCores num | None \<Rightarrow>
      Other)))))"

text \<open>The numbers that an \<open>int\<close> holds; \<open>%d\<close> on any other number is undefined.\<close>

definition int_ok :: "int \<Rightarrow> bool" where
  "int_ok n = (- (2 ^ 31) \<le> n \<and> n < 2 ^ 31)"

text \<open>
  \<open>vals.resize(n)\<close> cuts the vector or fills it with value-initialised records;
  \<open>vals.at(cur).f = num\<close> throws \<open>std::out_of_range\<close> unless \<open>cur\<close>, converted to
  \<open>size_t\<close>, is below the size. Running out of memory is not modelled.
\<close>

definition resize :: "cpuinfo list \<Rightarrow> nat \<Rightarrow> cpuinfo list" where
  "resize vals n = take n vals @ replicate (n - length vals) cpuinfo0"

definition at_update ::
  "cpuinfo list \<Rightarrow> int \<Rightarrow> (cpuinfo \<Rightarrow> cpuinfo) \<Rightarrow> failure + cpuinfo list" where
  "at_update vals cur f =
     (if 0 \<le> cur \<and> nat cur < length vals then Inr (vals[nat cur := f (vals ! nat cur)])
      else Inl OutOfRange)"

text \<open>The assignment of a field line to the current record.\<close>

definition set_field ::
  "int \<times> cpuinfo list \<Rightarrow> int \<Rightarrow> (cpuinfo \<Rightarrow> cpuinfo) \<Rightarrow> failure + int \<times> cpuinfo list" where
  "set_field st num f =
     (if \<not> int_ok num then Inl Undefined
      else (case at_update (snd st) (fst st) f of
              Inl e \<Rightarrow> Inl e
            | Inr vals \<Rightarrow> Inr (fst st, vals)))"

text \<open>
  One round of the loop of lines 139-155 on the state \<open>(cur, vals)\<close>. A processor
  line: the assertion of the debug build, \<open>cur = num\<close>, \<open>vals.resize(cur + 1)\<close>,
  where a negative \<open>cur + 1\<close> is a size beyond \<open>max_size()\<close>, and the assignment to
  \<open>vals.at(cur).proc\<close>.
\<close>

definition parse_classified ::
  "bool \<Rightarrow> cpu_line \<Rightarrow> int \<times> cpuinfo list \<Rightarrow> failure + int \<times> cpuinfo list" where
  "parse_classified dbg cl st =
     (case cl of
        Processor num \<Rightarrow>
          if \<not> int_ok num then Inl Undefined
          else if dbg \<and> \<not> fst st < num then Inl AssertFailed
          else if num = 2 ^ 31 - 1 then Inl Undefined
          else if num + 1 < 0 then Inl LengthError
          else (case at_update (resize (snd st) (nat (num + 1))) num
                       (\<lambda>c. c\<lparr>proc := word_of_int num\<rparr>) of
                  Inl e \<Rightarrow> Inl e
                | Inr vals \<Rightarrow> Inr (num, vals))
      | PhysicalId num \<Rightarrow> set_field st num (\<lambda>c. c\<lparr>physid := word_of_int num\<rparr>)
      | Siblings num \<Rightarrow> set_field st num (\<lambda>c. c\<lparr>sib := word_of_int num\<rparr>)
      | CoreId num \<Rightarrow> set_field st num (\<lambda>c. c\<lparr>coreid := word_of_int num\<rparr>)
      | CpuCores num \<Rightarrow> set_field st num (\<lambda>c. c\<lparr>cpucores := word_of_int num\<rparr>)
      | Other \<Rightarrow> Inr st)"

definition parse_line ::
  "bool \<Rightarrow> string \<Rightarrow> int \<times> cpuinfo list \<Rightarrow> failure + int \<times> cpuinfo list" where
  "parse_line dbg line st = parse_classified dbg (classify line) st"

fun parse_lines ::
  "bool \<Rightarrow> string list \<Rightarrow> int \<times> cpuinfo list \<Rightarrow> failure + int \<times> cpuinfo list" where
  "parse_lines dbg [] st = Inr st"
| "parse_lines dbg (line # rest) st =
     (case parse_line dbg line st of
        Inl e \<Rightarrow> Inl e
      | Inr st' \<Rightarrow> parse_lines dbg rest st')"

section \<open>The NUMA node of a record\<close>

definition gWarn :: "warn_arg list \<Rightarrow> pstate \<Rightarrow> pstate" where
  "gWarn args ps = ps\<lparr>diag := diag ps @ [args]\<rparr>"

definition numa_absent_msg :: "warn_arg list" where
  "numa_absent_msg =
     [Txt (''Numa support configured but not present at runtime.  '' @
           ''Assuming numa topology matches socket topology.'')]"

definition numa_unconfigured_msg :: "warn_arg list" where
  "numa_unconfigured_msg =
     [Txt (''Numa Support Not configured (install libnuma-dev).  '' @
           ''Assuming numa topology matches socket topology.'')]"

text \<open>
  The block of lines 97-106, run while \<open>warnOnce\<close> is false: load the library, set
  \<open>numaAvail\<close>, warn when it is false. \<open>&&\<close> does not call its right operand when
  the left one is false; \<open>dynamic_numa_num_configured_nodes\<close> is called without a
  null check.
\<close>

definition numa_probe :: "system \<Rightarrow> pstate \<Rightarrow> failure + pstate" where
  "numa_probe sys ps =
     (if warnOnce ps then Inr ps
      else
        (let ps = ps\<lparr>warnOnce := True\<rparr> in
         case numa_available sys of
           None \<Rightarrow> Inr (gWarn numa_absent_msg (ps\<lparr>numaAvail := False\<rparr>))
         | Some a \<Rightarrow>
             if a \<ge> 0 then
               (case numa_num_configured_nodes sys of
                  None \<Rightarrow> Inl Undefined
                | Some n \<Rightarrow>
                    if n > 0 then Inr (ps\<lparr>numaAvail := True\<rparr>)
                    else Inr (gWarn numa_absent_msg (ps\<lparr>numaAvail := False\<rparr>)))
             else Inr (gWarn numa_absent_msg (ps\<lparr>numaAvail := False\<rparr>))))"

text \<open>\<open>getNumaNode\<close> (lines 91-123), both branches of \<open>#ifdef KATANA_USE_NUMA\<close>.\<close>

definition getNumaNode :: "system \<Rightarrow> cpuinfo \<Rightarrow> pstate \<Rightarrow> failure + 32 word \<times> pstate" where
  "getNumaNode sys c ps =
     (if use_numa sys then
        (case numa_probe sys ps of
           Inl e \<Rightarrow> Inl e
         | Inr ps \<Rightarrow>
             if \<not> numaAvail ps then Inr (physid c, ps)
             else (case numa_node_of_cpu sys of
                     None \<Rightarrow> Inl Undefined
                   | Some node_of \<Rightarrow>
                       (let i = node_of (proc c) in
                        if i < 0 then Inl SysDie else Inr (word_of_int i, ps))))
      else
        (if \<not> warnOnce ps
         then Inr (physid c, gWarn numa_unconfigured_msg (ps\<lparr>warnOnce := True\<rparr>))
         else Inr (physid c, ps)))"

text \<open>The loop of lines 157-159.\<close>

fun set_numa_nodes ::
  "system \<Rightarrow> cpuinfo list \<Rightarrow> pstate \<Rightarrow> failure + cpuinfo list \<times> pstate" where
  "set_numa_nodes sys [] ps = Inr ([], ps)"
| "set_numa_nodes sys (c # cs) ps =
     (case getNumaNode sys c ps of
        Inl e \<Rightarrow> Inl e
      | Inr (n, ps') \<Rightarrow>
          (case set_numa_nodes sys cs ps' of
             Inl e \<Rightarrow> Inl e
           | Inr (cs', ps'') \<Rightarrow> Inr (c\<lparr>numaNode := n\<rparr> # cs', ps'')))"

text \<open>\<open>parseCPUInfo\<close> (lines 126-162).\<close>

definition parseCPUInfo :: "system \<Rightarrow> pstate \<Rightarrow> failure + cpuinfo list \<times> pstate" where
  "parseCPUInfo sys ps =
     (case cpuinfo_file sys of
        None \<Rightarrow> Inl SysDie
      | Some ls \<Rightarrow>
          (case parse_lines (debug_build sys) ls (- 1, []) of
             Inl e \<Rightarrow> Inl e
           | Inr st \<Rightarrow> set_numa_nodes sys (snd st) ps))"

section \<open>The cached topology and the binding of a thread\<close>

text \<open>\<open>makeHWTopo\<close> (lines 245-297).\<close>

definition makeHWTopo :: "system \<Rightarrow> pstate \<Rightarrow> failure + HWTopoInfo \<times> pstate" where
  "makeHWTopo sys ps =
     (case parseCPUInfo sys ps of
        Inl e \<Rightarrow> Inl e
      | Inr (info, ps') \<Rightarrow> Inr (topoOf sys info, ps'))"

text \<open>
  \<open>getHWTopo\<close> (lines 301-311), one call at a time: the lock makes the calls of
  several threads take turns.
\<close>

definition getHWTopo :: "system \<Rightarrow> pstate \<Rightarrow> failure + HWTopoInfo \<times> pstate" where
  "getHWTopo sys ps =
     (case data ps of
        None \<Rightarrow>
          (case makeHWTopo sys ps of
             Inl e \<Rightarrow> Inl e
           | Inr (t, ps') \<Rightarrow> Inr (t, ps'\<lparr>data := Some t\<rparr>))
      | Some t \<Rightarrow> Inr (t, ps))"

text \<open>
  \<open>CPU_ZERO\<close> and \<open>CPU_SET\<close> of glibc: the mask is the set of the contexts whose bit
  is set, and \<open>CPU_SET\<close> leaves the mask alone for a context of \<open>CPU_SETSIZE\<close> (1024)
  or more.
\<close>

definition CPU_ZERO :: "32 word set" where
  "CPU_ZERO = {}"

definition CPU_SET :: "32 word \<Rightarrow> 32 word set \<Rightarrow> 32 word set" where
  "CPU_SET cpu cpumask = (if unat cpu < 1024 then insert cpu cpumask else cpumask)"

text \<open>
  Modelled from the spec: \<open>KATANA_WARN_ONCE\<close> is a macro of katana/gIO.h, which is not
  among the sources; the specification says that the warning is emitted once.
\<close>

definition KATANA_WARN_ONCE :: "warn_arg list \<Rightarrow> pstate \<Rightarrow> pstate" where
  "KATANA_WARN_ONCE args ps =
     (if bindWarned ps then ps else gWarn args (ps\<lparr>bindWarned := True\<rparr>))"

text \<open>
  \<open>bindThreadSelf\<close> (lines 314-337), both branches of
  \<open>#ifdef KATANA_USE_SCHED_SETAFFINITY\<close>.
\<close>

definition bindThreadSelf :: "system \<Rightarrow> 32 word \<Rightarrow> pstate \<Rightarrow> failure + bool \<times> pstate" where
  "bindThreadSelf sys os_context ps =
     (if use_sched_setaffinity sys then
        (let cpumask = CPU_SET os_context CPU_ZERO;
             res = sched_setaffinity sys cpumask
         in if fst res = - 1
            then Inr (False,
                   gWarn [Txt ''Could not set CPU affinity to '', Num os_context, Txt ''('',
                          Txt (snd res), Txt '')''] ps)
            else Inr (True, ps))
      else
        Inr (False,
          KATANA_WARN_ONCE
            [Txt ''Cannot set cpu affinity on this platform.  Performance will be bad.''] ps))"

section \<open>Notions of the specification\<close>

text \<open>
  A record is valid when \<open>markValid\<close> sets its flag: the flag depends on the
  record alone.
\<close>

definition isAllowed :: "system \<Rightarrow> cpuinfo \<Rightarrow> bool" where
  "isAllowed sys c = valid (hd (markValid sys [c]))"

text \<open>
  The rank of an id in the order of numbers: how many ids of the set are below it.
\<close>

definition numeric_rank :: "32 word set \<Rightarrow> 32 word \<Rightarrow> nat" where
  "numeric_rank s x = card (Set.filter (\<lambda>y. y < x) s)"

text \<open>
  The rank of an id in the order of the scan, as the specification words it: how many
  distinct ids the scan from left to right has seen before it first sees this one.
\<close>

definition first_seen_rank :: "32 word list \<Rightarrow> 32 word \<Rightarrow> nat" where
  "first_seen_rank ids x = card (set (takeWhile (\<lambda>y. y \<noteq> x) ids))"

text \<open>
  The NUMA capability is unavailable: the build has no NUMA support, or the symbol
  \<open>numa_available\<close> is missing or returns a negative number, or the number of
  configured nodes is not positive.
\<close>

definition numa_unavailable :: "system \<Rightarrow> bool" where
  "numa_unavailable sys =
     (\<not> use_numa sys \<or>
      (case numa_available sys of
         None \<Rightarrow> True
       | Some a \<Rightarrow> a < 0 \<or>
           (case numa_num_configured_nodes sys of None \<Rightarrow> False | Some n \<Rightarrow> n \<le> 0)))"

text \<open>The warning that \<open>getNumaNode\<close> emits in the build at hand.\<close>

definition numa_warning :: "system \<Rightarrow> warn_arg list" where
  "numa_warning sys = (if use_numa sys then numa_absent_msg else numa_unconfigured_msg)"

text \<open>
  The input of \<open>parseCPUInfo\<close> as the specification describes it: blocks, each a
  processor line with its index and the lines that follow it up to the next processor
  line. In a block the lines that follow are no processor lines and carry numbers that
  fit an \<open>int\<close>; the indices are not negative, below \<open>INT_MAX\<close>, and strictly
  increasing from block to block, which is what the assertion of line 142 demands.
\<close>

fun field_ok :: "cpu_line \<Rightarrow> bool" where
  "field_ok (Processor num) = False"
| "field_ok (PhysicalId num) = int_ok num"
| "field_ok (Siblings num) = int_ok num"
| "field_ok (CoreId num) = int_ok num"
| "field_ok (CpuCores num) = int_ok num"
| "field_ok Other = True"

definition block_ok :: "int \<times> cpu_line list \<Rightarrow> bool" where
  "block_ok b = (0 \<le> fst b \<and> fst b < 2 ^ 31 - 1 \<and> list_all field_ok (snd b))"

definition blocks_ok :: "(int \<times> cpu_line list) list \<Rightarrow> bool" where
  "blocks_ok bs = (sorted_wrt (<) (map fst bs) \<and> list_all block_ok bs)"

definition cpuinfo_lines :: "(int \<times> cpu_line list) list \<Rightarrow> cpu_line list" where
  "cpuinfo_lines bs = concat (map (\<lambda>b. Processor (fst b) # snd b) bs)"

definition last_index :: "(int \<times> cpu_line list) list \<Rightarrow> int" where
  "last_index bs = (if bs = [] then - 1 else fst (last bs))"

text \<open>
  The last value that the lines of a block give to a field, zero (the initial value)
  when none of them sets it.
\<close>

fun physid_of :: "cpu_line \<Rightarrow> int option" where
  "physid_of (PhysicalId num) = Some num"
| "physid_of cl = None"

fun sib_of :: "cpu_line \<Rightarrow> int option" where
  "sib_of (Siblings num) = Some num"
| "sib_of cl = None"

fun coreid_of :: "cpu_line \<Rightarrow> int option" where
  "coreid_of (CoreId num) = Some num"
| "coreid_of cl = None"

fun cpucores_of :: "cpu_line \<Rightarrow> int option" where
  "cpucores_of (CpuCores num) = Some num"
| "cpucores_of cl = None"

definition last_value :: "(cpu_line \<Rightarrow> int option) \<Rightarrow> cpu_line list \<Rightarrow> 32 word" where
  "last_value sel block =
     (case List.map_filter sel block of [] \<Rightarrow> 0 | v # vs \<Rightarrow> word_of_int (last (v # vs)))"

text \<open>
  The five fields that the loop of \<open>parseCPUInfo\<close> fills, and what the
  specification expects in them for a block.
\<close>

definition fields :: "cpuinfo \<Rightarrow> 32 word \<times> 32 word \<times> 32 word \<times> 32 word \<times> 32 word" where
  "fields c = (proc c, physid c, sib c, coreid c, cpucores c)"

definition expected_fields ::
  "int \<times> cpu_line list \<Rightarrow> 32 word \<times> 32 word \<times> 32 word \<times> 32 word \<times> 32 word" where
  "expected_fields b =
     (word_of_int (fst b), last_value physid_of (snd b), last_value sib_of (snd b),
      last_value coreid_of (snd b), last_value cpucores_of (snd b))"

text \<open>The number of distinct processor lines of an input.\<close>

fun processor_of :: "cpu_line \<Rightarrow> int option" where
  "processor_of (Processor num) = Some num"
| "processor_of cl = None"

definition distinct_processors :: "string list \<Rightarrow> nat" where
  "distinct_processors ls = card (set (List.map_filter processor_of (map classify ls)))"

text \<open>
  The loop of lines 139-155 on lines that are classified already, and what the field
  lines of a block do to the current record.
\<close>

fun parse_all ::
  "bool \<Rightarrow> cpu_line list \<Rightarrow> int \<times> cpuinfo list \<Rightarrow> failure + int \<times> cpuinfo list" where
  "parse_all dbg [] st = Inr st"
| "parse_all dbg (cl # rest) st =
     (case parse_classified dbg cl st of
        Inl e \<Rightarrow> Inl e
      | Inr st' \<Rightarrow> parse_all dbg rest st')"

fun apply_field :: "cpu_line \<Rightarrow> cpuinfo \<Rightarrow> cpuinfo" where
  "apply_field (PhysicalId num) c = c\<lparr>physid := word_of_int num\<rparr>"
| "apply_field (Siblings num) c = c\<lparr>sib := word_of_int num\<rparr>"
| "apply_field (CoreId num) c = c\<lparr>coreid := word_of_int num\<rparr>"
| "apply_field (CpuCores num) c = c\<lparr>cpucores := word_of_int num\<rparr>"
| "apply_field cl c = c"

section \<open>A model of the list parser\<close>

text \<open>
  Modelled from the spec: \<open>katana::parseCPUList\<close> is defined outside the sources. The
  specification describes its input as a compact range/list specification such as
  \<open>0-3,7\<close>, parsed into a set of integers: the items between commas are a number or
  a range of two numbers; an item that is neither adds nothing.
\<close>

fun split_at :: "char \<Rightarrow> string \<Rightarrow> string list" where
  "split_at d [] = [[]]"
| "split_at d (c # cs) =
     (if c = d then [] # split_at d cs
      else (case split_at d cs of
              [] \<Rightarrow> [[c]]
            | w # ws \<Rightarrow> (c # w) # ws))"

definition cpu_range :: "string \<Rightarrow> int list" where
  "cpu_range item =
     (case split_at CHR ''-'' item of
        [a] \<Rightarrow> (case scan_d a of Some n \<Rightarrow> [n] | None \<Rightarrow> [])
      | [a, b] \<Rightarrow>
          (case scan_d a of
             None \<Rightarrow> []
           | Some lo \<Rightarrow> (case scan_d b of None \<Rightarrow> [] | Some hi \<Rightarrow> [lo..hi]))
      | _ \<Rightarrow> [])"

definition parseCPUList_spec :: "string \<Rightarrow> int list" where
  "parseCPUList_spec s = concat (map cpu_range (split_at CHR '','' s))"

section \<open>Example machines\<close>

text \<open>
  A build without NUMA and without affinity support; the files are set per example.
\<close>

definition plain_system :: "string list option \<Rightarrow> string list option \<Rightarrow> system" where
  "plain_system cpuinfo status =
     \<lparr>use_numa = False, use_sched_setaffinity = False, debug_build = False,
      numa_available = None, numa_num_configured_nodes = None, numa_node_of_cpu = None,
      cpuinfo_file = cpuinfo, status_file = status, parseCPUList = parseCPUList_spec,
      sched_setaffinity = (\<lambda>m. (0, []))\<rparr>"

text \<open>
  Package 0 has one core with the two hardware threads 0 and 1, package 1 has one core
  with the thread 2.
\<close>

definition three_threads :: "string list" where
  "three_threads =
     [''processor : 0'', ''physical id : 0'', ''siblings : 2'', ''core id : 0'', ''cpu cores : 1'',
      ''processor : 1'', ''physical id : 0'', ''siblings : 2'', ''core id : 0'', ''cpu cores : 1'',
      ''processor : 2'', ''physical id : 1'', ''siblings : 1'', ''core id : 0'', ''cpu cores : 1'']"

definition rec3 :: "32 word \<Rightarrow> 32 word \<Rightarrow> 32 word \<Rightarrow> cpuinfo" where
  "rec3 p pkg s = \<lparr>proc = p, physid = pkg, sib = s, coreid = 0, cpucores = 1, numaNode = pkg,
     valid = False, smt = False\<rparr>"

definition three_records :: "cpuinfo list" where
  "three_records = [rec3 0 0 2, rec3 1 0 2, rec3 2 1 1]"

text \<open>The process may run on the threads 1 and 2, on thread 1 alone, on all.\<close>

definition sys_12 :: system where
  "sys_12 = plain_system (Some three_threads) (Some [''Name: a.out'', ''Cpus_allowed_list: 1-2''])"

definition sys_1 :: system where
  "sys_1 = plain_system (Some three_threads) (Some [''Name: a.out'', ''Cpus_allowed_list: 1''])"

definition sys_all :: system where
  "sys_all = plain_system (Some three_threads) None"

text \<open>The status line is there, and its list is empty.\<close>

definition sys_empty_list :: system where
  "sys_empty_list = plain_system (Some three_threads) (Some [''Cpus_allowed_list:''])"

text \<open>
  Two inputs: the processors 0 and 2 without a processor 1, and a machine with two
  processors whose second block sets the core id twice.
\<close>

definition sparse_cpuinfo :: "string list" where
  "sparse_cpuinfo = [''processor : 0'', ''physical id : 0'', ''processor : 2'', ''physical id : 1'']"

definition two_blocks :: "string list" where
  "two_blocks =
     [''vendor_id : x'', ''processor : 0'', ''physical id : 3'', ''flags : fpu'',
      ''processor : 1'', ''core id : 4'', ''core id : 5'']"

definition sys_sparse :: system where
  "sys_sparse = plain_system (Some sparse_cpuinfo) None"

definition sys_two_blocks :: system where
  "sys_two_blocks = plain_system (Some two_blocks) None"

text \<open>
  A NUMA build whose library is present with two nodes and answers every query with
  -1; a build with affinity support whose system call fails; a machine whose
  /proc/cpuinfo cannot be opened.
\<close>

definition sys_numa_negative :: system where
  "sys_numa_negative =
     (plain_system (Some three_threads) None)
       \<lparr>use_numa := True, numa_available := Some 0, numa_num_configured_nodes := Some 2,
        numa_node_of_cpu := Some (\<lambda>cpu. - 1)\<rparr>"

definition sys_affinity_fails :: system where
  "sys_affinity_fails =
     (plain_system (Some three_threads) None)
       \<lparr>use_sched_setaffinity := True,
        sched_setaffinity := (\<lambda>m. (- 1, ''Invalid argument''))\<rparr>"

definition sys_unreadable :: system where
  "sys_unreadable = plain_system None None"

section \<open>The number of records\<close>

text \<open>
  Whenever \<open>parseCPUInfo\<close> returns, it returns fewer than \<open>2 ^ 31\<close> records, so
  the counts and positions of the topology fit the \<open>unsigned\<close> fields that hold
  them.
\<close>

lemma at_update_length: "at_update vals cur f = Inr vals' \<Longrightarrow> length vals' = length vals"
  by (auto simp: at_update_def split: if_splits)

lemma parse_classified_bound:
  assumes "parse_classified dbg cl (cur, vals) = Inr (cur', vals')" and "length vals < 2 ^ 31"
  shows "length vals' < 2 ^ 31"
proof (cases cl)
  case (Processor num)
  with assms(1) obtain r where "int_ok num" and "num \<noteq> 2 ^ 31 - 1" and "\<not> num + 1 < 0"
    and "at_update (resize vals (nat (num + 1))) num (\<lambda>c. c\<lparr>proc := word_of_int num\<rparr>) = Inr vals'"
    by (auto simp: parse_classified_def split: if_splits sum.splits)
  then have "length vals' = nat (num + 1)" and "num + 1 < 2 ^ 31"
    by (auto simp: int_ok_def resize_def dest!: at_update_length)
  then show ?thesis by simp
next
  case Other
  with assms show ?thesis by (simp add: parse_classified_def)
qed (use assms in \<open>auto simp: parse_classified_def set_field_def
       split: if_splits sum.splits dest!: at_update_length\<close>)

lemma parse_lines_bound:
  "parse_lines dbg ls (cur, vals) = Inr (cur', vals') \<Longrightarrow> length vals < 2 ^ 31
   \<Longrightarrow> length vals' < 2 ^ 31"
proof (induction ls arbitrary: cur vals)
  case Nil
  then show ?case by simp
next
  case (Cons l ls)
  from Cons.prems(1) obtain cur1 vals1 where
    s: "parse_classified dbg (classify l) (cur, vals) = Inr (cur1, vals1)"
    and r: "parse_lines dbg ls (cur1, vals1) = Inr (cur', vals')"
    by (auto simp: parse_line_def split: sum.splits)
  from parse_classified_bound [OF s Cons.prems(2)] Cons.IH [OF r] show ?case by blast
qed

lemma set_numa_nodes_length:
  "set_numa_nodes sys cs ps = Inr (cs', ps') \<Longrightarrow> length cs' = length cs"
proof (induction cs arbitrary: ps cs' ps')
  case Nil
  then show ?case by simp
next
  case (Cons c cs)
  from Cons.prems obtain n ps1 cs1 where
    "set_numa_nodes sys cs ps1 = Inr (cs1, ps')" and "cs' = c\<lparr>numaNode := n\<rparr> # cs1"
    by (auto split: sum.splits prod.splits)
  with Cons.IH [of ps1 cs1 ps'] show ?case by simp
qed

lemma parseCPUInfo_bound:
  assumes "parseCPUInfo sys ps = Inr (vals, ps')"
  shows "length vals < 2 ^ 31"
proof -
  from assms obtain ls cur vals0 where
    p: "parse_lines (debug_build sys) ls (- 1, []) = Inr (cur, vals0)"
    and n: "set_numa_nodes sys vals0 ps = Inr (vals, ps')"
    by (auto simp: parseCPUInfo_def split: option.splits sum.splits)
  from parse_lines_bound [OF p] have "length vals0 < 2 ^ 31" by simp
  with set_numa_nodes_length [OF n] show ?thesis by simp
qed

section \<open>The loop that builds the per-thread records\<close>

lemma tti_fold_length:
  "length (snd (fold (tti_step F S N) [0..<n] (m, acc))) = length acc + n"
  by (induction n) (simp_all add: tti_step_def Let_def)

lemma tti_fold_nth:
  assumes "i < n"
  shows "snd (fold (tti_step F S N) [0..<n] (m, [])) ! i =
           \<lparr>tid = i, socketLeader = find_if_pos (\<lambda>c. physid c = physid (F ! i)) F,
            socket = set_rank S (physid (F ! i)),
            numaRank = set_rank N (numaNode (F ! i)),
            cumulativeMaxSocket = cumulativeMaxSocket (snd (fold (tti_step F S N) [0..<n] (m, [])) ! i),
            osContext = proc (F ! i), osNumaNode = numaNode (F ! i)\<rparr>"
  using assms
proof (induction n)
  case 0
  then show ?case by simp
next
  case (Suc n)
  let ?r = "fold (tti_step F S N) [0..<n] (m, [])"
  have len: "length (snd ?r) = n"
    using tti_fold_length [of F S N n m "[]"] by simp
  have step: "snd (fold (tti_step F S N) [0..<Suc n] (m, [])) = snd (tti_step F S N n ?r)"
    by simp
  show ?case
  proof (cases "i < n")
    case True
    have "snd (tti_step F S N n ?r) ! i = snd ?r ! i"
      using True len by (simp add: tti_step_def Let_def nth_append)
    with Suc.IH [OF True] step show ?thesis by simp
  next
    case False
    with Suc.prems have "i = n" by simp
    then show ?thesis
      unfolding step using len by (simp add: tti_step_def Let_def nth_append)
  qed
qed

lemma find_if_pos_first:
  assumes "i < length F" and "p (F ! i)"
  shows "find_if_pos p F \<le> i"
    and "p (F ! find_if_pos p F)"
    and "\<forall>j < find_if_pos p F. \<not> p (F ! j)"
proof -
  let ?l = "length (takeWhile (\<lambda>c. \<not> p c) F)"
  show le: "find_if_pos p F \<le> i"
  proof (rule ccontr)
    assume "\<not> find_if_pos p F \<le> i"
    then have "i < ?l" by (simp add: find_if_pos_def)
    then have "takeWhile (\<lambda>c. \<not> p c) F ! i \<in> set (takeWhile (\<lambda>c. \<not> p c) F)"
      by simp
    moreover have "takeWhile (\<lambda>c. \<not> p c) F ! i = F ! i"
      using \<open>i < ?l\<close> by (rule takeWhile_nth)
    ultimately have "\<not> p (F ! i)" by (auto dest: set_takeWhileD)
    with assms(2) show False by simp
  qed
  then have "?l < length F" using assms(1) by (simp add: find_if_pos_def)
  then have "\<not> \<not> p (F ! ?l)" by (rule nth_length_takeWhile)
  then show "p (F ! find_if_pos p F)" by (simp add: find_if_pos_def)
  show "\<forall>j < find_if_pos p F. \<not> p (F ! j)"
  proof (intro allI impI)
    fix j assume "j < find_if_pos p F"
    then have j: "j < ?l" by (simp add: find_if_pos_def)
    then have "takeWhile (\<lambda>c. \<not> p c) F ! j \<in> set (takeWhile (\<lambda>c. \<not> p c) F)" by simp
    moreover have "takeWhile (\<lambda>c. \<not> p c) F ! j = F ! j" using j by (rule takeWhile_nth)
    ultimately show "\<not> p (F ! j)" by (auto dest: set_takeWhileD)
  qed
qed

lemma threadTopoInfo_length: "length (threadTopoInfo (topoOfFinal F)) = length F"
  using tti_fold_length [of F _ _ "length F" 0 "[]"] by (simp add: topoOfFinal_def Let_def)

lemma threadTopoInfo_nth:
  assumes "i < length F"
  shows "tid (threadTopoInfo (topoOfFinal F) ! i) = i"
    and "socketLeader (threadTopoInfo (topoOfFinal F) ! i) = find_if_pos (\<lambda>c. physid c = physid (F ! i)) F"
    and "socket (threadTopoInfo (topoOfFinal F) ! i) = set_rank (set (map physid F)) (physid (F ! i))"
    and "numaRank (threadTopoInfo (topoOfFinal F) ! i) = set_rank (set (map numaNode F)) (numaNode (F ! i))"
    and "osContext (threadTopoInfo (topoOfFinal F) ! i) = proc (F ! i)"
    and "osNumaNode (threadTopoInfo (topoOfFinal F) ! i) = numaNode (F ! i)"
proof -
  let ?e = "snd (fold (tti_step F (set (map physid F)) (set (map numaNode F))) [0..<length F] (0, [])) ! i"
  have e: "threadTopoInfo (topoOfFinal F) ! i = ?e"
    by (simp add: topoOfFinal_def Let_def)
  note n = tti_fold_nth [OF assms, of F "set (map physid F)" "set (map numaNode F)" 0]
  show "tid (threadTopoInfo (topoOfFinal F) ! i) = i"
    unfolding e by (subst n) simp
  show "socketLeader (threadTopoInfo (topoOfFinal F) ! i) = find_if_pos (\<lambda>c. physid c = physid (F ! i)) F"
    unfolding e by (subst n) simp
  show "socket (threadTopoInfo (topoOfFinal F) ! i) = set_rank (set (map physid F)) (physid (F ! i))"
    unfolding e by (subst n) simp
  show "numaRank (threadTopoInfo (topoOfFinal F) ! i) = set_rank (set (map numaNode F)) (numaNode (F ! i))"
    unfolding e by (subst n) simp
  show "osContext (threadTopoInfo (topoOfFinal F) ! i) = proc (F ! i)"
    unfolding e by (subst n) simp
  show "osNumaNode (threadTopoInfo (topoOfFinal F) ! i) = numaNode (F ! i)"
    unfolding e by (subst n) simp
qed

section \<open>Leaders\<close>

text \<open>
  C5. For every entry of the per-thread sequence, with \<open>F\<close> the records in their
  final order: the entry at position \<open>i\<close> has the compact id \<open>i\<close>; its leader is the
  position of the first record of \<open>F\<close> with the package id of record \<open>i\<close> (that
  record has the same package id, and no record before it has); the leader's own
  leader field is its own compact id; the leader is at most the entry's own compact
  id; and the entry and its leader have the same package rank.
\<close>

theorem leader_is_first_of_package:
  assumes "F = finalInfo sys vals" and "T = threadTopoInfo (topoOf sys vals)"
    and "i < length T"
  shows "length T = length F
    \<and> tid (T ! i) = i
    \<and> socketLeader (T ! i) < length T
    \<and> physid (F ! socketLeader (T ! i)) = physid (F ! i)
    \<and> (\<forall>j < socketLeader (T ! i). physid (F ! j) \<noteq> physid (F ! i))
    \<and> socketLeader (T ! socketLeader (T ! i)) = tid (T ! socketLeader (T ! i))
    \<and> socketLeader (T ! i) \<le> tid (T ! i)
    \<and> socket (T ! socketLeader (T ! i)) = socket (T ! i)"
proof -
  have T: "T = threadTopoInfo (topoOfFinal F)"
    using assms(1,2) by (simp add: topoOf_def)
  have len: "length T = length F"
    unfolding T by (rule threadTopoInfo_length)
  with assms(3) have i: "i < length F" by simp
  let ?p = "\<lambda>c. physid c = physid (F ! i)"
  let ?l = "find_if_pos ?p F"
  have l: "socketLeader (T ! i) = ?l"
    unfolding T by (rule threadTopoInfo_nth(2) [OF i])
  have le: "?l \<le> i" and same: "physid (F ! ?l) = physid (F ! i)"
    and first: "\<forall>j < ?l. physid (F ! j) \<noteq> physid (F ! i)"
    using find_if_pos_first [of i F ?p, OF i] by simp_all
  from le i have lF: "?l < length F" by simp
  have ll: "socketLeader (T ! ?l) = ?l"
    unfolding T threadTopoInfo_nth(2) [OF lF] same ..
  have tl: "tid (T ! ?l) = ?l" unfolding T by (rule threadTopoInfo_nth(1) [OF lF])
  have ti: "tid (T ! i) = i" unfolding T by (rule threadTopoInfo_nth(1) [OF i])
  have sl: "socket (T ! ?l) = socket (T ! i)"
    unfolding T threadTopoInfo_nth(3) [OF lF] threadTopoInfo_nth(3) [OF i] same ..
  show ?thesis
    unfolding l using len ti lF same first ll tl le sl by simp
qed

theorem leader_is_first_of_package_witness:
  "(2::nat) < length (threadTopoInfo (topoOf sys_all three_records))
   \<and> socketLeader (threadTopoInfo (topoOf sys_all three_records) ! 2)
       \<le> tid (threadTopoInfo (topoOf sys_all three_records) ! 2)
   \<and> socket (threadTopoInfo (topoOf sys_all three_records) !
        socketLeader (threadTopoInfo (topoOf sys_all three_records) ! 2))
       = socket (threadTopoInfo (topoOf sys_all three_records) ! 2)
   \<and> socketLeader (threadTopoInfo (topoOf sys_all three_records) ! 2) = 0"
proof -
  have h: "(2::nat) < length (threadTopoInfo (topoOf sys_all three_records))"
    by code_simp
  have l: "socketLeader (threadTopoInfo (topoOf sys_all three_records) ! 2) = 0"
    by code_simp
  from leader_is_first_of_package [OF refl refl h] h l show ?thesis
    by simp
qed

section \<open>The records that survive the filter\<close>

lemma sort_insert_mset: "mset (sort_insert x xs) = add_mset x (mset xs)"
  by (induction xs) simp_all

lemma std_sort_mset: "mset (std_sort xs) = mset xs"
  unfolding std_sort_def by (induction xs) (simp_all add: sort_insert_mset)

text \<open>
  The model of \<open>std::sort\<close> meets the contract of \<open>std::sort\<close>: its result is a
  permutation of its argument, and no record is less than one before it.
\<close>

lemma cpuinfo_less_asym: "cpuinfo_less a b \<Longrightarrow> \<not> cpuinfo_less b a"
  by (auto simp: cpuinfo_less_def split: if_splits)

lemma cpuinfo_le_trans:
  "\<not> cpuinfo_less b a \<Longrightarrow> \<not> cpuinfo_less c b \<Longrightarrow> \<not> cpuinfo_less c a"
  by (auto simp: cpuinfo_less_def split: if_splits)

lemma sort_insert_set: "set (sort_insert x xs) = insert x (set xs)"
  by (induction xs) auto

lemma sort_insert_sorted:
  "sorted_wrt (\<lambda>a b. \<not> cpuinfo_less b a) xs
   \<Longrightarrow> sorted_wrt (\<lambda>a b. \<not> cpuinfo_less b a) (sort_insert x xs)"
proof (induction xs)
  case Nil
  then show ?case by simp
next
  case (Cons y ys)
  show ?case
  proof (cases "cpuinfo_less y x")
    case True
    with Cons show ?thesis
      by (auto simp: sort_insert_set dest: cpuinfo_less_asym)
  next
    case False
    from Cons.prems have y: "\<forall>z \<in> set ys. \<not> cpuinfo_less z y"
      and s: "sorted_wrt (\<lambda>a b. \<not> cpuinfo_less b a) ys"
      by simp_all
    from y False have "\<forall>z \<in> set ys. \<not> cpuinfo_less z x"
      using cpuinfo_le_trans by blast
    with y s False show ?thesis by simp
  qed
qed

lemma std_sort_sorted: "sorted_wrt (\<lambda>a b. \<not> cpuinfo_less b a) (std_sort xs)"
  unfolding std_sort_def by (induction xs) (simp_all add: sort_insert_sorted)

lemma markSMT_fold_map:
  assumes "\<And>c b. f (c\<lparr>smt := b\<rparr>) = f c"
  shows "map f (fold markSMT_step js xs) = map f xs"
proof (induction js arbitrary: xs)
  case Nil
  then show ?case by simp
next
  case (Cons j js)
  have "map f (markSMT_step j xs) = map f xs"
  proof (cases "j < length xs")
    case True
    then show ?thesis
      by (simp add: markSMT_step_def map_update assms list_update_same_conv)
  next
    case False
    then have "xs[j := y] = xs" for y by (simp add: list_update_beyond)
    then show ?thesis by (simp add: markSMT_step_def)
  qed
  with Cons.IH [of "markSMT_step j xs"] show ?case by simp
qed

lemma markSMT_map:
  assumes "\<And>c b. f (c\<lparr>smt := b\<rparr>) = f c"
  shows "map f (markSMT xs) = map f xs"
  unfolding markSMT_def using assms by (rule markSMT_fold_map)

lemma markValid_map: "markValid sys info = map (\<lambda>c. c\<lparr>valid := isAllowed sys c\<rparr>) info"
  by (simp add: markValid_def isAllowed_def Let_def)

lemma isAllowed_smt: "isAllowed sys (c\<lparr>smt := b\<rparr>) = isAllowed sys c"
  by (simp add: isAllowed_def markValid_def Let_def)

lemma map_filter_pair: "map f (filter P xs) = map fst (filter snd (map (\<lambda>c. (f c, P c)) xs))"
  by (induction xs) simp_all

lemma finalInfo_mset:
  assumes smt: "\<And>c b. f (c\<lparr>smt := b\<rparr>) = f c" and val: "\<And>c b. f (c\<lparr>valid := b\<rparr>) = f c"
  shows "mset (map f (finalInfo sys vals)) = mset (map f (filter (isAllowed sys) vals))"
proof -
  let ?i1 = "std_sort vals"
  let ?i2 = "markSMT ?i1"
  let ?i4 = "filter valid (markValid sys ?i2)"
  have F: "finalInfo sys vals = markSMT (std_sort ?i4)"
    by (simp add: finalInfo_def Let_def)
  have i4: "map f ?i4 = map f (filter (isAllowed sys) ?i2)"
    by (simp add: markValid_map filter_map o_def val)
  have "map (\<lambda>c. (f c, isAllowed sys c)) ?i2 = map (\<lambda>c. (f c, isAllowed sys c)) ?i1"
    by (rule markSMT_map) (simp add: smt isAllowed_smt)
  then have i2: "map f (filter (isAllowed sys) ?i2) = map f (filter (isAllowed sys) ?i1)"
    by (simp add: map_filter_pair [of f])
  have "mset (map f (finalInfo sys vals)) = mset (map f (std_sort ?i4))"
    unfolding F by (simp add: markSMT_map [of f, OF smt])
  also have "\<dots> = image_mset f (mset ?i4)"
    by (simp add: std_sort_mset)
  also have "\<dots> = mset (map f (filter (isAllowed sys) ?i1))"
    using i4 i2 by (metis mset_map)
  also have "\<dots> = image_mset f (filter_mset (isAllowed sys) (mset ?i1))"
    by simp
  also have "\<dots> = mset (map f (filter (isAllowed sys) vals))"
    by (simp add: std_sort_mset)
  finally show ?thesis .
qed

lemma finalInfo_set:
  assumes smt: "\<And>c b. f (c\<lparr>smt := b\<rparr>) = f c" and val: "\<And>c b. f (c\<lparr>valid := b\<rparr>) = f c"
  shows "f ` set (finalInfo sys vals) = f ` set (filter (isAllowed sys) vals)"
proof -
  have "set (map f (finalInfo sys vals)) = set (map f (filter (isAllowed sys) vals))"
    using finalInfo_mset [of f, OF smt val] by (rule mset_eq_setD)
  then show ?thesis by simp
qed

lemma finalInfo_length: "length (finalInfo sys vals) = length (filter (isAllowed sys) vals)"
proof -
  have "mset (map (\<lambda>c. ()) (finalInfo sys vals)) = mset (map (\<lambda>c. ()) (filter (isAllowed sys) vals))"
    by (rule finalInfo_mset) simp_all
  then show ?thesis by (metis length_map size_mset)
qed

lemma card_sint_pairs:
  "card ((\<lambda>c. (sint (physid c), sint (coreid c))) ` A) = card ((\<lambda>c. (physid c, coreid c)) ` A)"
proof -
  have inj: "inj (map_prod (sint :: 32 word \<Rightarrow> int) (sint :: 32 word \<Rightarrow> int))"
    by (rule injI) (auto simp: signed_word_eqI)
  have "(\<lambda>c. (sint (physid c), sint (coreid c))) ` A
      = map_prod sint sint ` ((\<lambda>c. (physid c, coreid c)) ` A)"
    by (auto simp: image_iff)
  then show ?thesis
    using inj by (simp add: card_image inj_on_def)
qed

lemma topoOf_counts:
  assumes "V = filter (isAllowed sys) vals" and "M = machineTopoInfo (topoOf sys vals)"
  shows "maxSockets M = card (physid ` set V)
    \<and> maxCores M = card ((\<lambda>c. (physid c, coreid c)) ` set V)
    \<and> maxNumaNodes M = card (numaNode ` set V)
    \<and> maxThreads M = length V"
proof -
  let ?F = "finalInfo sys vals"
  have M: "M = \<lparr>maxThreads = length ?F, maxCores = countCores ?F,
     maxSockets = countSockets ?F, maxNumaNodes = countNumaNodes ?F\<rparr>"
    using assms(2) by (simp add: topoOf_def topoOfFinal_def Let_def)
  have s: "maxSockets M = card (physid ` set V)"
    unfolding M assms(1) by (simp add: countSockets_def finalInfo_set [of physid])
  have n: "maxNumaNodes M = card (numaNode ` set V)"
    unfolding M assms(1) by (simp add: countNumaNodes_def finalInfo_set [of numaNode])
  have "maxCores M = card ((\<lambda>c. (physid c, coreid c)) ` set ?F)"
    unfolding M by (simp add: countCores_def card_sint_pairs)
  also have "(\<lambda>c. (physid c, coreid c)) ` set ?F = (\<lambda>c. (physid c, coreid c)) ` set V"
    unfolding assms(1) by (rule finalInfo_set) simp_all
  finally have c: "maxCores M = card ((\<lambda>c. (physid c, coreid c)) ` set V)" .
  have t: "maxThreads M = length V"
    unfolding M assms(1) by (simp add: finalInfo_length)
  from s c n t show ?thesis by simp
qed

section \<open>Machine counts\<close>

text \<open>
  C4. With \<open>V\<close> the valid records of the parsed sequence (those that \<open>markValid\<close>
  flags), the four counts of \<open>MachineTopoInfo\<close> are: \<open>maxSockets\<close> the number of
  distinct package ids in \<open>V\<close>, \<open>maxCores\<close> the number of distinct pairs of package
  id and core id in \<open>V\<close>, \<open>maxNumaNodes\<close> the number of distinct NUMA node ids in
  \<open>V\<close>, and \<open>maxThreads\<close> the number of records of \<open>V\<close>.
\<close>

theorem machine_counts_over_valid_records:
  assumes "V = filter (isAllowed sys) vals" and "M = machineTopoInfo (topoOf sys vals)"
  shows "maxSockets M = card (physid ` set V)
    \<and> maxCores M = card ((\<lambda>c. (physid c, coreid c)) ` set V)
    \<and> maxNumaNodes M = card (numaNode ` set V)
    \<and> maxThreads M = length V"
  using assms by (rule topoOf_counts)

theorem machine_counts_over_valid_records_witness:
  "maxThreads (machineTopoInfo (topoOf sys_12 three_records))
     = length (filter (isAllowed sys_12) three_records)
   \<and> maxSockets (machineTopoInfo (topoOf sys_12 three_records))
     = card (physid ` set (filter (isAllowed sys_12) three_records))
   \<and> maxThreads (machineTopoInfo (topoOf sys_12 three_records)) = 2
   \<and> maxSockets (machineTopoInfo (topoOf sys_12 three_records)) = 2"
proof -
  have v: "maxThreads (machineTopoInfo (topoOf sys_12 three_records)) = 2"
    "maxSockets (machineTopoInfo (topoOf sys_12 three_records)) = 2"
    by code_simp+
  from machine_counts_over_valid_records [OF refl refl, of sys_12 three_records] v
  show ?thesis by simp
qed

section \<open>Ranks\<close>

lemma numeric_rank_less:
  assumes "finite S" and "x \<in> S"
  shows "numeric_rank S x < card S"
proof -
  have "Set.filter (\<lambda>y. y < x) S \<subset> S"
    using assms(2) by auto
  then show ?thesis
    unfolding numeric_rank_def using assms(1) by (rule psubset_card_mono [rotated])
qed

lemma numeric_rank_strict_mono:
  assumes "finite S" and "x \<in> S" and "x < y"
  shows "numeric_rank S x < numeric_rank S y"
proof -
  have "Set.filter (\<lambda>z. z < x) S \<subset> Set.filter (\<lambda>z. z < y) S"
    using assms(2,3) by auto
  moreover have "finite (Set.filter (\<lambda>z. z < y) S)"
    using assms(1) by simp
  ultimately show ?thesis
    unfolding numeric_rank_def by (rule psubset_card_mono [rotated])
qed

lemma numeric_rank_bij:
  assumes "finite S"
  shows "bij_betw (numeric_rank S) S {0..<card S}"
proof -
  have inj: "inj_on (numeric_rank S) S"
  proof (rule inj_onI)
    fix x y assume x: "x \<in> S" and y: "y \<in> S" and eq: "numeric_rank S x = numeric_rank S y"
    show "x = y"
    proof (rule ccontr)
      assume "x \<noteq> y"
      then consider "x < y" | "y < x" by (auto simp: neq_iff)
      then show False
        using numeric_rank_strict_mono [OF assms x, of y]
          numeric_rank_strict_mono [OF assms y, of x] eq by cases simp_all
    qed
  qed
  have sub: "numeric_rank S ` S \<subseteq> {0..<card S}"
    using numeric_rank_less [OF assms] by auto
  have "card (numeric_rank S ` S) = card {0..<card S}"
    using inj by (simp add: card_image)
  with sub have "numeric_rank S ` S = {0..<card S}"
    by (simp add: card_subset_eq)
  with inj show ?thesis by (simp add: bij_betw_def)
qed

lemma set_rank_member: "x \<in> S \<Longrightarrow> set_rank S x = numeric_rank S x"
  by (simp add: set_rank_def numeric_rank_def)

text \<open>
  C1, as the code has it. With \<open>F\<close> the records in their final order, \<open>P\<close> the
  distinct package ids and \<open>N\<close> the distinct NUMA node ids of the valid records: the
  package rank of every entry is the number of ids of \<open>P\<close> that are numerically below
  the entry's package id, the NUMA rank is the number of ids of \<open>N\<close> numerically below
  its NUMA node id, every id of \<open>P\<close> and of \<open>N\<close> belongs to some entry, and the two
  rank functions are bijections from \<open>P\<close> onto \<open>0..maxSockets-1\<close> and from \<open>N\<close>
  onto \<open>0..maxNumaNodes-1\<close>. The ranks follow the numeric order of the OS ids (the
  order of \<open>std::set\<close>), not the order in which the scan first sees them.
\<close>

theorem ranks_follow_numeric_order:
  assumes "F = finalInfo sys vals" and "T = threadTopoInfo (topoOf sys vals)"
    and "M = machineTopoInfo (topoOf sys vals)"
    and "P = physid ` set (filter (isAllowed sys) vals)"
    and "N = numaNode ` set (filter (isAllowed sys) vals)"
  shows "length T = length F
    \<and> (\<forall>i < length T. physid (F ! i) \<in> P \<and> socket (T ! i) = numeric_rank P (physid (F ! i))
          \<and> numaNode (F ! i) \<in> N \<and> numaRank (T ! i) = numeric_rank N (numaNode (F ! i)))
    \<and> physid ` set F = P \<and> numaNode ` set F = N
    \<and> bij_betw (numeric_rank P) P {0..<maxSockets M}
    \<and> bij_betw (numeric_rank N) N {0..<maxNumaNodes M}"
proof -
  have T: "T = threadTopoInfo (topoOfFinal F)"
    using assms(1,2) by (simp add: topoOf_def)
  have len: "length T = length F"
    unfolding T by (rule threadTopoInfo_length)
  have P: "physid ` set F = P"
    unfolding assms(1,4) by (rule finalInfo_set) simp_all
  have N: "numaNode ` set F = N"
    unfolding assms(1,5) by (rule finalInfo_set) simp_all
  have entries: "\<forall>i < length T. physid (F ! i) \<in> P \<and> socket (T ! i) = numeric_rank P (physid (F ! i))
          \<and> numaNode (F ! i) \<in> N \<and> numaRank (T ! i) = numeric_rank N (numaNode (F ! i))"
  proof (intro allI impI)
    fix i assume "i < length T"
    with len have i: "i < length F" by simp
    then have p: "physid (F ! i) \<in> P" and n: "numaNode (F ! i) \<in> N"
      using P N by (auto simp: image_iff intro: nth_mem)
    have "socket (T ! i) = set_rank P (physid (F ! i))"
      unfolding T threadTopoInfo_nth(3) [OF i] using P by simp
    moreover have "numaRank (T ! i) = set_rank N (numaNode (F ! i))"
      unfolding T threadTopoInfo_nth(4) [OF i] using N by simp
    ultimately show "physid (F ! i) \<in> P \<and> socket (T ! i) = numeric_rank P (physid (F ! i))
          \<and> numaNode (F ! i) \<in> N \<and> numaRank (T ! i) = numeric_rank N (numaNode (F ! i))"
      using p n by (simp add: set_rank_member)
  qed
  have M: "maxSockets M = card P" "maxNumaNodes M = card N"
    using topoOf_counts [OF refl assms(3)] assms(4,5) by simp_all
  have fin: "finite P" "finite N"
    unfolding assms(4,5) by simp_all
  have bp: "bij_betw (numeric_rank P) P {0..<maxSockets M}"
    unfolding M by (rule numeric_rank_bij [OF fin(1)])
  have bn: "bij_betw (numeric_rank N) N {0..<maxNumaNodes M}"
    unfolding M by (rule numeric_rank_bij [OF fin(2)])
  from len entries P N bp bn show ?thesis by simp
qed

theorem ranks_follow_numeric_order_witness:
  "(0::nat) < length (threadTopoInfo (topoOf sys_12 three_records))
   \<and> socket (threadTopoInfo (topoOf sys_12 three_records) ! 0)
       = numeric_rank (physid ` set (filter (isAllowed sys_12) three_records))
           (physid (finalInfo sys_12 three_records ! 0))
   \<and> socket (threadTopoInfo (topoOf sys_12 three_records) ! 0) = 1"
proof -
  have h: "(0::nat) < length (threadTopoInfo (topoOf sys_12 three_records))"
    by code_simp
  have v: "socket (threadTopoInfo (topoOf sys_12 three_records) ! 0) = 1"
    by code_simp
  from ranks_follow_numeric_order [OF refl refl refl refl refl, of sys_12 three_records] h v
  show ?thesis by simp
qed

text \<open>
  C1 as stated fails: the process is confined to the threads 1 and 2 of the machine
  with three threads. The final order puts thread 2 (package 1, never an SMT sibling)
  before thread 1 (package 0, flagged SMT by the first pass), so the scan sees package
  1 first; the code ranks package 1 as 1 and package 0 as 0.
\<close>

theorem ranks_not_in_scan_order:
  "fst (projr (parseCPUInfo sys_12 pstate0)) = three_records
   \<and> map physid (finalInfo sys_12 three_records) = [1, 0]
   \<and> map socket (threadTopoInfo (topoOf sys_12 three_records)) = [1, 0]
   \<and> map (first_seen_rank (map physid (finalInfo sys_12 three_records)))
       (map physid (finalInfo sys_12 three_records)) = [0, 1]"
  by code_simp

section \<open>SMT flags after the filter\<close>

lemma markSMT_step_eq:
  "markSMT_step i info =
     info[i := (info ! i)\<lparr>smt := (physid (info ! (i - 1)) = physid (info ! i)
                                   \<and> coreid (info ! (i - 1)) = coreid (info ! i))\<rparr>]"
  by (auto simp: markSMT_step_def)

lemma markSMT_fold_nth:
  assumes "n \<le> length xs"
  shows "length (fold markSMT_step [1..<n] xs) = length xs
    \<and> (\<forall>i < length xs. fold markSMT_step [1..<n] xs ! i =
          (if 1 \<le> i \<and> i < n
           then (xs ! i)\<lparr>smt := (physid (xs ! (i - 1)) = physid (xs ! i)
                                 \<and> coreid (xs ! (i - 1)) = coreid (xs ! i))\<rparr>
           else xs ! i))"
  using assms
proof (induction n)
  case 0
  then show ?case by simp
next
  case (Suc n)
  let ?ys = "fold markSMT_step [1..<n] xs"
  from Suc have len: "length ?ys = length xs"
    and nth: "\<forall>i < length xs. ?ys ! i =
          (if 1 \<le> i \<and> i < n
           then (xs ! i)\<lparr>smt := (physid (xs ! (i - 1)) = physid (xs ! i)
                                 \<and> coreid (xs ! (i - 1)) = coreid (xs ! i))\<rparr>
           else xs ! i)"
    by simp_all
  show ?case
  proof (cases "n = 0")
    case True
    then show ?thesis by simp
  next
    case False
    then have upt: "[1..<Suc n] = [1..<n] @ [n]" by simp
    have n: "n < length xs" using Suc.prems by simp
    have yn: "?ys ! n = xs ! n" using nth n by simp
    have "n - 1 < length xs" using n by simp
    with nth have "physid (?ys ! (n - 1)) = physid (xs ! (n - 1))"
      and "coreid (?ys ! (n - 1)) = coreid (xs ! (n - 1))"
      by (simp_all split: if_splits)
    with yn have step: "fold markSMT_step [1..<Suc n] xs =
      ?ys[n := (xs ! n)\<lparr>smt := (physid (xs ! (n - 1)) = physid (xs ! n)
                                 \<and> coreid (xs ! (n - 1)) = coreid (xs ! n))\<rparr>]"
      unfolding upt by (simp add: markSMT_step_eq)
    show ?thesis
      unfolding step using len nth False
      by (auto simp: nth_list_update less_Suc_eq)
  qed
qed

lemma markSMT_nth:
  "length (markSMT xs) = length xs"
  "0 < length xs \<Longrightarrow> markSMT xs ! 0 = xs ! 0"
  "1 \<le> i \<Longrightarrow> i < length xs \<Longrightarrow>
     markSMT xs ! i = (xs ! i)\<lparr>smt := (physid (xs ! (i - 1)) = physid (xs ! i)
                                      \<and> coreid (xs ! (i - 1)) = coreid (xs ! i))\<rparr>"
  using markSMT_fold_nth [of "length xs" xs] by (simp_all add: markSMT_def)

text \<open>
  What the second pass does achieve: from position 1 on, a record of the final order
  that is flagged SMT has the package and the core of the surviving record before it.
  Position 0 is not covered: \<open>markSMT\<close> leaves its flag as it was.
\<close>

lemma smt_flag_after_second_pass:
  assumes "F = finalInfo sys vals" and "1 \<le> i" and "i < length F" and "smt (F ! i)"
  shows "physid (F ! (i - 1)) = physid (F ! i) \<and> coreid (F ! (i - 1)) = coreid (F ! i)"
proof -
  obtain G where F: "F = markSMT G"
    using assms(1) by (simp add: finalInfo_def Let_def)
  have len: "length F = length G" unfolding F by (rule markSMT_nth(1))
  with assms(3) have i: "i < length G" by simp
  have Fi: "F ! i = (G ! i)\<lparr>smt := (physid (G ! (i - 1)) = physid (G ! i)
                                      \<and> coreid (G ! (i - 1)) = coreid (G ! i))\<rparr>"
    unfolding F using assms(2) i by (rule markSMT_nth(3))
  have m: "map (\<lambda>c. (physid c, coreid c)) F = map (\<lambda>c. (physid c, coreid c)) G"
    unfolding F by (rule markSMT_map) simp
  have "(physid (F ! j), coreid (F ! j)) = (physid (G ! j), coreid (G ! j))" if "j < length G" for j
    using that len nth_map [of j F "\<lambda>c. (physid c, coreid c)"]
      nth_map [of j G "\<lambda>c. (physid c, coreid c)"] m by simp
  from this [of i] this [of "i - 1"] i assms(4) Fi show ?thesis by simp
qed

text \<open>
  C2 at a failing input: the process is confined to thread 1, whose only sibling
  (thread 0) is excluded. \<open>maxThreads\<close> is 1, and the only surviving record keeps
  the SMT flag of the first pass: the loop of \<open>markSMT\<close> starts at position 1 and
  never writes the flag of position 0.
\<close>

theorem stale_smt_flag_of_first_record:
  "fst (projr (parseCPUInfo sys_1 pstate0)) = three_records
   \<and> map smt (markSMT (std_sort three_records)) = [False, True, False]
   \<and> map (isAllowed sys_1) three_records = [False, True, False]
   \<and> map proc (finalInfo sys_1 three_records) = [1]
   \<and> map smt (finalInfo sys_1 three_records) = [True]
   \<and> maxThreads (machineTopoInfo (topoOf sys_1 three_records)) = 1"
  by code_simp

section \<open>Marking the valid records\<close>

lemma first_with_prefix_None:
  "first_with_prefix ls = None \<longleftrightarrow> (\<forall>l \<in> set ls. take (length cpus_prefix) l \<noteq> cpus_prefix)"
  by (induction ls) simp_all

lemma first_with_prefix_Some:
  assumes "\<forall>l \<in> set pre. take (length cpus_prefix) l \<noteq> cpus_prefix"
    and "take (length cpus_prefix) line = cpus_prefix"
  shows "first_with_prefix (pre @ line # rest) = Some line"
  using assms by (induction pre) simp_all

text \<open>
  The search is membership when the list has no negative entry: the order of
  \<open>int\<close> is then the order of the converted entries. (The entries are values of
  \<open>int\<close>, hence below \<open>2 ^ 31\<close>.)
\<close>

lemma word_of_int_mono:
  assumes "0 \<le> a" and "a \<le> b" and "b < 2 ^ 31"
  shows "(word_of_int a :: 32 word) \<le> word_of_int b"
  using assms by (simp add: word_le_def uint_word_of_int take_bit_int_eq_self)

lemma uint_word_of_int_small:
  assumes "0 \<le> a" and "a < 2 ^ 31"
  shows "uint (word_of_int a :: 32 word) = a"
  using assms by (simp add: uint_word_of_int take_bit_int_eq_self)

lemma lower_bound_partitions:
  "sorted (map word_of_int v :: 32 word list) \<Longrightarrow> first + len \<le> length v \<Longrightarrow>
    first \<le> lower_bound v val first len \<and> lower_bound v val first len \<le> first + len
    \<and> (\<forall>j. first \<le> j \<and> j < lower_bound v val first len \<longrightarrow> word_of_int (v ! j) < val)
    \<and> (\<forall>j. lower_bound v val first len \<le> j \<and> j < first + len
           \<longrightarrow> \<not> word_of_int (v ! j) < val)"
proof (induction v val first len rule: lower_bound.induct)
  case (1 v val first len)
  note srt = "1.prems"(1) and bound = "1.prems"(2)
  have mono: "(word_of_int (v ! i) :: 32 word) \<le> word_of_int (v ! j)"
    if "i \<le> j" and "j < length v" for i j
    using srt that sorted_nth_mono [of "map word_of_int v :: 32 word list" i j] by simp
  show ?case
  proof (cases "0 < len")
    case False
    then have "lower_bound v val first len = first"
      by (subst lower_bound.simps) simp
    with False show ?thesis by auto
  next
    case len: True
    define half where "half = len div 2"
    define middle where "middle = first + half"
    have hl: "half < len" using len by (simp add: half_def)
    have ml: "middle < length v" using hl bound by (simp add: middle_def)
    show ?thesis
    proof (cases "word_of_int (v ! middle) < val")
      case True
      have eq: "lower_bound v val first len = lower_bound v val (middle + 1) (len - half - 1)"
        using len True by (subst lower_bound.simps) (simp add: half_def middle_def Let_def)
      have "middle + 1 + (len - half - 1) \<le> length v"
        using hl bound by (simp add: middle_def)
      from "1.IH"(1) [OF len half_def middle_def True srt this]
      have ih: "middle + 1 \<le> lower_bound v val (middle + 1) (len - half - 1)"
        "lower_bound v val (middle + 1) (len - half - 1) \<le> middle + 1 + (len - half - 1)"
        "\<forall>j. middle + 1 \<le> j \<and> j < lower_bound v val (middle + 1) (len - half - 1)
              \<longrightarrow> word_of_int (v ! j) < val"
        "\<forall>j. lower_bound v val (middle + 1) (len - half - 1) \<le> j
              \<and> j < middle + 1 + (len - half - 1) \<longrightarrow> \<not> word_of_int (v ! j) < val"
        by simp_all
      have sum: "middle + 1 + (len - half - 1) = first + len"
        using hl by (simp add: middle_def)
      have low: "word_of_int (v ! j) < val" if "first \<le> j" and "j \<le> middle" for j
        using mono [OF that(2) ml] True by simp
      show ?thesis
        unfolding eq
      proof (intro conjI allI impI)
        show "first \<le> lower_bound v val (middle + 1) (len - half - 1)"
          using ih(1) by (simp add: middle_def)
        show "lower_bound v val (middle + 1) (len - half - 1) \<le> first + len"
          using ih(2) sum by simp
        fix j
        { assume "first \<le> j \<and> j < lower_bound v val (middle + 1) (len - half - 1)"
          then show "word_of_int (v ! j) < val"
            using ih(3) low [of j] by (cases "j \<le> middle") simp_all }
        { assume "lower_bound v val (middle + 1) (len - half - 1) \<le> j \<and> j < first + len"
          then show "\<not> word_of_int (v ! j) < val"
            using ih(4) sum by simp }
      qed
    next
      case False
      have eq: "lower_bound v val first len = lower_bound v val first half"
        using len False by (subst lower_bound.simps) (simp add: half_def middle_def Let_def)
      have "first + half \<le> length v"
        using hl bound by simp
      from "1.IH"(2) [OF len half_def middle_def False srt this]
      have ih: "first \<le> lower_bound v val first half"
        "lower_bound v val first half \<le> first + half"
        "\<forall>j. first \<le> j \<and> j < lower_bound v val first half \<longrightarrow> word_of_int (v ! j) < val"
        "\<forall>j. lower_bound v val first half \<le> j \<and> j < first + half
              \<longrightarrow> \<not> word_of_int (v ! j) < val"
        by simp_all
      have high: "\<not> word_of_int (v ! j) < val" if "middle \<le> j" and "j < first + len" for j
      proof -
        have "j < length v" using that(2) bound by simp
        from mono [OF that(1) this] False show ?thesis by simp
      qed
      show ?thesis
        unfolding eq
      proof (intro conjI allI impI)
        show "first \<le> lower_bound v val first half" by (rule ih(1))
        show "lower_bound v val first half \<le> first + len"
          using ih(2) hl by simp
        fix j
        { assume "first \<le> j \<and> j < lower_bound v val first half"
          then show "word_of_int (v ! j) < val" using ih(3) by simp }
        { assume "lower_bound v val first half \<le> j \<and> j < first + len"
          then show "\<not> word_of_int (v ! j) < val"
            using ih(4) high [of j] by (cases "j < first + half") (simp_all add: middle_def) }
      qed
    qed
  qed
qed

lemma binary_search_member:
  assumes "sorted (map word_of_int v :: 32 word list)"
  shows "binary_search v val \<longleftrightarrow> val \<in> word_of_int ` set v"
proof -
  define r where "r = lower_bound v val 0 (length v)"
  from lower_bound_partitions [OF assms, of 0 "length v" val]
  have r: "r \<le> length v"
    and below: "\<forall>j. j < r \<longrightarrow> word_of_int (v ! j) < val"
    and above: "\<forall>j. r \<le> j \<and> j < length v \<longrightarrow> \<not> word_of_int (v ! j) < val"
    by (simp_all add: r_def)
  have bs: "binary_search v val \<longleftrightarrow> r \<noteq> length v \<and> \<not> val < word_of_int (v ! r)"
    by (simp add: binary_search_def r_def Let_def)
  show ?thesis
  proof
    assume "binary_search v val"
    with bs r have rl: "r < length v" and "\<not> val < word_of_int (v ! r)" by simp_all
    moreover from above rl have "\<not> word_of_int (v ! r) < val" by simp
    ultimately have "val = word_of_int (v ! r)" by simp
    with rl show "val \<in> word_of_int ` set v" by simp
  next
    assume "val \<in> word_of_int ` set v"
    then obtain k where k: "k < length v" and vk: "val = word_of_int (v ! k)"
      by (auto simp: in_set_conv_nth)
    from below vk have rk: "r \<le> k"
      by (metis less_irrefl not_le_imp_less)
    with k have rl: "r < length v" by simp
    have "(word_of_int (v ! r) :: 32 word) \<le> word_of_int (v ! k)"
      using assms rk k sorted_nth_mono [of "map word_of_int v :: 32 word list" r k] by simp
    with vk have "\<not> val < word_of_int (v ! r)" by simp
    with rl bs show "binary_search v val" by simp
  qed
qed

lemma sorted_as_unsigned:
  assumes "\<forall>x \<in> set v. 0 \<le> x \<and> x < 2 ^ 31"
  shows "sorted (map word_of_int (sort v) :: 32 word list)"
proof -
  have "sorted_wrt (\<lambda>a b. (word_of_int a :: 32 word) \<le> word_of_int b) (sort v)"
  proof (rule sorted_wrt_mono_rel [of "sort v" "(\<le>)"])
    fix a b assume "a \<in> set (sort v)" and "b \<in> set (sort v)" and "a \<le> b"
    with assms show "(word_of_int a :: 32 word) \<le> word_of_int b"
      by (intro word_of_int_mono) simp_all
  next
    show "sorted_wrt (\<le>) (sort v)" by simp
  qed
  then show ?thesis by (simp add: sorted_map)
qed

lemma binary_search_sorted_member:
  assumes "\<forall>x \<in> set v. 0 \<le> x \<and> x < 2 ^ 31"
  shows "binary_search (sort v) val \<longleftrightarrow> uint val \<in> set v"
proof -
  have "binary_search (sort v) val \<longleftrightarrow> val \<in> word_of_int ` set v"
    using binary_search_member [OF sorted_as_unsigned [OF assms], of val] by simp
  also have "\<dots> \<longleftrightarrow> uint val \<in> set v"
  proof
    assume "val \<in> word_of_int ` set v"
    then obtain x where "x \<in> set v" and "val = word_of_int x" by blast
    with assms uint_word_of_int_small [of x] show "uint val \<in> set v" by simp
  next
    assume "uint val \<in> set v"
    then have "word_of_int (uint val) \<in> (word_of_int ` set v :: 32 word set)" by (rule imageI)
    then show "val \<in> word_of_int ` set v" by simp
  qed
  finally show ?thesis .
qed

text \<open>
  With a negative entry the vector sorted as \<open>int\<close> is not sorted for the unsigned
  comparisons, and the search misses members: the list \<open>-1, 1, 2\<close> contains 1, and
  the search for 1 fails.
\<close>

lemma binary_search_after_negative_entry:
  "map (binary_search (sort [- 1, 1, 2])) [0, 1, 2] = [False, False, True]"
  by code_simp

text \<open>
  C6, as the code has it. If the status file cannot be opened, or none of its lines
  starts with \<open>Cpus_allowed_list:\<close>, or the list parsed from the first such line is
  empty, \<open>markValid\<close> marks every record valid (and changes nothing else); otherwise,
  when no entry of the parsed list is negative (the entries are values of \<open>int\<close>,
  from 0 to \<open>2 ^ 31 - 1\<close>), it marks each record valid if and only if its processor
  id is a member of the list parsed from that line.
\<close>

theorem markValid_by_allowed_list:
  "(status_file sys = None \<longrightarrow> markValid sys info = map (\<lambda>c. c\<lparr>valid := True\<rparr>) info)
   \<and> (\<forall>ls. status_file sys = Some ls
          \<and> (\<forall>l \<in> set ls. take (length cpus_prefix) l \<noteq> cpus_prefix)
        \<longrightarrow> markValid sys info = map (\<lambda>c. c\<lparr>valid := True\<rparr>) info)
   \<and> (\<forall>pre line rest v. status_file sys = Some (pre @ line # rest)
          \<and> (\<forall>l \<in> set pre. take (length cpus_prefix) l \<noteq> cpus_prefix)
          \<and> take (length cpus_prefix) line = cpus_prefix
          \<and> v = parseCPUList sys (drop (length cpus_prefix) line)
        \<longrightarrow> (v = [] \<longrightarrow> markValid sys info = map (\<lambda>c. c\<lparr>valid := True\<rparr>) info)
          \<and> (v \<noteq> [] \<and> (\<forall>x \<in> set v. 0 \<le> x \<and> x < 2 ^ 31) \<longrightarrow> markValid sys info
                = map (\<lambda>c. c\<lparr>valid := (uint (proc c) \<in> set v)\<rparr>) info))"
proof (intro conjI allI impI)
  assume "status_file sys = None"
  then show "markValid sys info = map (\<lambda>c. c\<lparr>valid := True\<rparr>) info"
    by (simp add: markValid_def parseCPUSet_def)
next
  fix ls
  assume "status_file sys = Some ls \<and> (\<forall>l \<in> set ls. take (length cpus_prefix) l \<noteq> cpus_prefix)"
  then have "parseCPUSet sys = []"
    using first_with_prefix_None [of ls] by (simp add: parseCPUSet_def)
  then show "markValid sys info = map (\<lambda>c. c\<lparr>valid := True\<rparr>) info"
    by (simp add: markValid_def)
next
  fix pre line rest v
  assume h: "status_file sys = Some (pre @ line # rest)
          \<and> (\<forall>l \<in> set pre. take (length cpus_prefix) l \<noteq> cpus_prefix)
          \<and> take (length cpus_prefix) line = cpus_prefix
          \<and> v = parseCPUList sys (drop (length cpus_prefix) line)"
  then have "first_with_prefix (pre @ line # rest) = Some line"
    using first_with_prefix_Some by blast
  with h have v: "parseCPUSet sys = v"
    by (simp add: parseCPUSet_def)
  { assume "v = []"
    with v show "markValid sys info = map (\<lambda>c. c\<lparr>valid := True\<rparr>) info"
      by (simp add: markValid_def) }
  { assume nn: "v \<noteq> [] \<and> (\<forall>x \<in> set v. 0 \<le> x \<and> x < 2 ^ 31)"
    then have "binary_search (sort v) val \<longleftrightarrow> uint val \<in> set v" for val
      using binary_search_sorted_member [of v val] by blast
    with v nn show "markValid sys info = map (\<lambda>c. c\<lparr>valid := (uint (proc c) \<in> set v)\<rparr>) info"
      by (simp add: markValid_def Let_def) }
qed

theorem markValid_by_allowed_list_witness:
  "status_file sys_12 = Some ([''Name: a.out''] @ ''Cpus_allowed_list: 1-2'' # [])
   \<and> parseCPUList sys_12 (drop (length cpus_prefix) ''Cpus_allowed_list: 1-2'') = [1, 2]
   \<and> markValid sys_12 three_records
       = map (\<lambda>c. c\<lparr>valid := (uint (proc c) \<in> set [1, 2])\<rparr>) three_records
   \<and> map valid (markValid sys_12 three_records) = [False, True, True]"
proof -
  have a: "status_file sys_12 = Some ([''Name: a.out''] @ ''Cpus_allowed_list: 1-2'' # [])"
    by (simp add: sys_12_def plain_system_def)
  have b: "\<forall>l \<in> set [''Name: a.out'']. take (length cpus_prefix) l \<noteq> cpus_prefix"
    by (simp add: cpus_prefix_def)
  have c: "take (length cpus_prefix) ''Cpus_allowed_list: 1-2'' = cpus_prefix"
    by (simp add: cpus_prefix_def)
  have d: "parseCPUList sys_12 (drop (length cpus_prefix) ''Cpus_allowed_list: 1-2'') = [1, 2]"
    by code_simp
  have e: "map valid (markValid sys_12 three_records) = [False, True, True]"
    by code_simp
  have n: "\<forall>x \<in> set [1, 2 :: int]. 0 \<le> x \<and> x < 2 ^ 31"
    by simp
  have "\<forall>pre line rest v. status_file sys_12 = Some (pre @ line # rest)
          \<and> (\<forall>l \<in> set pre. take (length cpus_prefix) l \<noteq> cpus_prefix)
          \<and> take (length cpus_prefix) line = cpus_prefix
          \<and> v = parseCPUList sys_12 (drop (length cpus_prefix) line)
        \<longrightarrow> (v = [] \<longrightarrow> markValid sys_12 three_records = map (\<lambda>c. c\<lparr>valid := True\<rparr>) three_records)
          \<and> (v \<noteq> [] \<and> (\<forall>x \<in> set v. 0 \<le> x \<and> x < 2 ^ 31) \<longrightarrow> markValid sys_12 three_records
                = map (\<lambda>c. c\<lparr>valid := (uint (proc c) \<in> set v)\<rparr>) three_records)"
    using markValid_by_allowed_list [of sys_12 three_records] by (elim conjE)
  then have "status_file sys_12 = Some ([''Name: a.out''] @ ''Cpus_allowed_list: 1-2'' # [])
          \<and> (\<forall>l \<in> set [''Name: a.out'']. take (length cpus_prefix) l \<noteq> cpus_prefix)
          \<and> take (length cpus_prefix) ''Cpus_allowed_list: 1-2'' = cpus_prefix
          \<and> [1, 2] = parseCPUList sys_12 (drop (length cpus_prefix) ''Cpus_allowed_list: 1-2'')
        \<longrightarrow> ([1, 2 :: int] \<noteq> [] \<and> (\<forall>x \<in> set [1, 2 :: int]. 0 \<le> x \<and> x < 2 ^ 31)
              \<longrightarrow> markValid sys_12 three_records
                = map (\<lambda>c. c\<lparr>valid := (uint (proc c) \<in> set [1, 2])\<rparr>) three_records)"
    by blast
  with a b c d n have "markValid sys_12 three_records
                = map (\<lambda>c. c\<lparr>valid := (uint (proc c) \<in> set [1, 2])\<rparr>) three_records"
    by simp
  with a d e show ?thesis by simp
qed

text \<open>
  C6 as stated fails: the status line is present and the list parsed from it is
  empty, so no processor id is a member of it, and yet all three records are marked
  valid.
\<close>

theorem empty_allowed_list_marks_all_valid:
  "status_file sys_empty_list = Some [''Cpus_allowed_list:'']
   \<and> take (length cpus_prefix) ''Cpus_allowed_list:'' = cpus_prefix
   \<and> parseCPUList sys_empty_list (drop (length cpus_prefix) ''Cpus_allowed_list:'') = []
   \<and> map proc three_records = [0, 1, 2]
   \<and> map valid (markValid sys_empty_list three_records) = [True, True, True]"
  by code_simp

section \<open>The NUMA fallback\<close>

lemma getNumaNode_unavailable:
  assumes "numa_unavailable sys" and "\<not> numaAvail ps"
  shows "\<exists>ps'. getNumaNode sys c ps = Inr (physid c, ps') \<and> \<not> numaAvail ps' \<and> warnOnce ps'
           \<and> diag ps' = diag ps @ (if warnOnce ps then [] else [numa_warning sys])"
proof (cases "use_numa sys")
  case False
  then show ?thesis
    using assms(2) by (simp add: getNumaNode_def gWarn_def numa_warning_def)
next
  case True
  show ?thesis
  proof (cases "warnOnce ps")
    case w: True
    then show ?thesis
      using True assms(2) by (simp add: getNumaNode_def numa_probe_def)
  next
    case w: False
    from assms(1) True have
      "numa_available sys = None \<or> (\<exists>a. numa_available sys = Some a \<and> a < 0)
        \<or> (\<exists>a n. numa_available sys = Some a \<and> 0 \<le> a
              \<and> numa_num_configured_nodes sys = Some n \<and> n \<le> 0)"
      by (auto simp: numa_unavailable_def split: option.splits)
    then have "\<exists>ps1. numa_probe sys ps = Inr ps1 \<and> \<not> numaAvail ps1 \<and> warnOnce ps1
        \<and> diag ps1 = diag ps @ [numa_absent_msg]"
      using w by (auto simp: numa_probe_def gWarn_def Let_def)
    then show ?thesis
      using True w by (auto simp: getNumaNode_def numa_warning_def)
  qed
qed

lemma set_numa_nodes_unavailable:
  assumes "numa_unavailable sys"
  shows "\<not> numaAvail ps \<Longrightarrow>
    \<exists>ps'. set_numa_nodes sys cs ps = Inr (map (\<lambda>c. c\<lparr>numaNode := physid c\<rparr>) cs, ps')
      \<and> \<not> numaAvail ps' \<and> (warnOnce ps \<longrightarrow> warnOnce ps')
      \<and> diag ps' = diag ps @ (if warnOnce ps \<or> cs = [] then [] else [numa_warning sys])"
proof (induction cs arbitrary: ps)
  case Nil
  then show ?case by simp
next
  case (Cons c cs)
  from getNumaNode_unavailable [OF assms Cons.prems, of c]
  obtain ps1 where g: "getNumaNode sys c ps = Inr (physid c, ps1)" and a: "\<not> numaAvail ps1"
    and w: "warnOnce ps1"
    and d: "diag ps1 = diag ps @ (if warnOnce ps then [] else [numa_warning sys])"
    by blast
  from Cons.IH [OF a]
  obtain ps2 where s: "set_numa_nodes sys cs ps1 = Inr (map (\<lambda>c. c\<lparr>numaNode := physid c\<rparr>) cs, ps2)"
    and a2: "\<not> numaAvail ps2" and w2: "warnOnce ps2"
    and d2: "diag ps2 = diag ps1 @ (if warnOnce ps1 \<or> cs = [] then [] else [numa_warning sys])"
    using w by blast
  have "set_numa_nodes sys (c # cs) ps = Inr (map (\<lambda>c. c\<lparr>numaNode := physid c\<rparr>) (c # cs), ps2)"
    using g s by simp
  moreover have "diag ps2 = diag ps @ (if warnOnce ps \<or> c # cs = [] then [] else [numa_warning sys])"
    using d d2 w by simp
  ultimately show ?case using a2 w2 by blast
qed

lemma getNumaNode_negative:
  assumes "use_numa sys" and "numa_available sys = Some a" and "0 \<le> a"
    and "numa_num_configured_nodes sys = Some n" and "0 < n"
    and "numa_node_of_cpu sys = Some node_of" and "node_of (proc c) < 0"
    and "warnOnce ps \<longrightarrow> numaAvail ps"
  shows "getNumaNode sys c ps = Inl SysDie"
  using assms by (cases "warnOnce ps") (simp_all add: getNumaNode_def numa_probe_def Let_def)

text \<open>
  C7. In a process whose NUMA capability is unavailable (\<open>numaAvail\<close> is then never
  set): every call of \<open>getNumaNode\<close> returns the package id of its record, the loop of
  \<open>parseCPUInfo\<close> gives every record its package id as NUMA node, and a warning is
  emitted only by the first call (none once \<open>warnOnce\<close> is set), so at most one for
  the process. In a NUMA build whose library is available with a positive number of
  nodes, a negative answer of the node query is fatal.
\<close>

theorem getNumaNode_falls_back_or_dies:
  "(numa_unavailable sys \<and> \<not> numaAvail ps \<longrightarrow>
      (\<exists>ps'. getNumaNode sys c ps = Inr (physid c, ps')
         \<and> diag ps' = diag ps @ (if warnOnce ps then [] else [numa_warning sys]))
      \<and> (\<exists>ps'. set_numa_nodes sys cs ps = Inr (map (\<lambda>c. c\<lparr>numaNode := physid c\<rparr>) cs, ps')
         \<and> diag ps' = diag ps @ (if warnOnce ps \<or> cs = [] then [] else [numa_warning sys])))
   \<and> (use_numa sys \<and> numa_available sys = Some a \<and> 0 \<le> a
        \<and> numa_num_configured_nodes sys = Some n \<and> 0 < n
        \<and> numa_node_of_cpu sys = Some node_of \<and> node_of (proc c) < 0
        \<and> (warnOnce ps \<longrightarrow> numaAvail ps) \<longrightarrow>
      getNumaNode sys c ps = Inl SysDie)"
proof (intro conjI impI)
  assume h: "numa_unavailable sys \<and> \<not> numaAvail ps"
  then show "\<exists>ps'. getNumaNode sys c ps = Inr (physid c, ps')
         \<and> diag ps' = diag ps @ (if warnOnce ps then [] else [numa_warning sys])"
    using getNumaNode_unavailable [of sys ps c] by blast
  from h show "\<exists>ps'. set_numa_nodes sys cs ps = Inr (map (\<lambda>c. c\<lparr>numaNode := physid c\<rparr>) cs, ps')
         \<and> diag ps' = diag ps @ (if warnOnce ps \<or> cs = [] then [] else [numa_warning sys])"
    using set_numa_nodes_unavailable [of sys ps cs] by blast
next
  assume "use_numa sys \<and> numa_available sys = Some a \<and> 0 \<le> a
        \<and> numa_num_configured_nodes sys = Some n \<and> 0 < n
        \<and> numa_node_of_cpu sys = Some node_of \<and> node_of (proc c) < 0
        \<and> (warnOnce ps \<longrightarrow> numaAvail ps)"
  then show "getNumaNode sys c ps = Inl SysDie"
    using getNumaNode_negative [of sys a n node_of c ps] by blast
qed

theorem getNumaNode_falls_back_or_dies_witness:
  "numa_unavailable sys_all \<and> \<not> numaAvail pstate0
   \<and> (\<exists>ps'. set_numa_nodes sys_all three_records pstate0
                = Inr (map (\<lambda>c. c\<lparr>numaNode := physid c\<rparr>) three_records, ps')
            \<and> diag ps' = [numa_warning sys_all])
   \<and> use_numa sys_numa_negative \<and> numa_available sys_numa_negative = Some 0
   \<and> numa_num_configured_nodes sys_numa_negative = Some 2
   \<and> getNumaNode sys_numa_negative (rec3 0 0 2) pstate0 = Inl SysDie"
proof -
  have u: "numa_unavailable sys_all"
    by (simp add: numa_unavailable_def sys_all_def plain_system_def)
  have p: "\<not> numaAvail pstate0" "\<not> warnOnce pstate0" "diag pstate0 = []"
    by (simp_all add: pstate0_def)
  have r: "three_records \<noteq> []"
    by (simp add: three_records_def)
  have "\<exists>ps'. set_numa_nodes sys_all three_records pstate0
                = Inr (map (\<lambda>c. c\<lparr>numaNode := physid c\<rparr>) three_records, ps')
            \<and> diag ps' = diag pstate0 @ (if warnOnce pstate0 \<or> three_records = [] then []
                 else [numa_warning sys_all])"
    using getNumaNode_falls_back_or_dies [of sys_all pstate0 "rec3 0 0 2" three_records 0 0 "\<lambda>cpu. 0"]
      u p(1) by blast
  then have one: "\<exists>ps'. set_numa_nodes sys_all three_records pstate0
                = Inr (map (\<lambda>c. c\<lparr>numaNode := physid c\<rparr>) three_records, ps')
            \<and> diag ps' = [numa_warning sys_all]"
    using p r by simp
  have n: "use_numa sys_numa_negative" "numa_available sys_numa_negative = Some 0"
    "numa_num_configured_nodes sys_numa_negative = Some 2"
    "numa_node_of_cpu sys_numa_negative = Some (\<lambda>cpu. - 1)"
    by (simp_all add: sys_numa_negative_def plain_system_def)
  have "getNumaNode sys_numa_negative (rec3 0 0 2) pstate0 = Inl SysDie"
    using getNumaNode_falls_back_or_dies
      [of sys_numa_negative pstate0 "rec3 0 0 2" "[]" 0 2 "\<lambda>cpu. - 1"] n p(2)
    by simp
  with u p(1) one n show ?thesis by simp
qed

section \<open>Binding a thread\<close>

text \<open>
  C8. For every \<open>osContext\<close>, \<open>bindThreadSelf\<close> returns (no failure is possible);
  without affinity support it returns false and emits its warning unless it has been
  emitted before; with affinity support it returns false and emits a diagnostic that
  contains the text of the OS error when the system call returns -1, and returns true,
  emitting nothing, when the system call returns 0.
\<close>

theorem bindThreadSelf_never_fails:
  "(\<exists>b ps'. bindThreadSelf sys os_context ps = Inr (b, ps'))
   \<and> (\<not> use_sched_setaffinity sys \<longrightarrow>
        (\<exists>ps'. bindThreadSelf sys os_context ps = Inr (False, ps') \<and> bindWarned ps'
           \<and> diag ps' = diag ps @ (if bindWarned ps then []
               else [[Txt ''Cannot set cpu affinity on this platform.  Performance will be bad.'']])))
   \<and> (use_sched_setaffinity sys
        \<and> fst (sched_setaffinity sys (CPU_SET os_context CPU_ZERO)) = - 1 \<longrightarrow>
        (\<exists>ps' w. bindThreadSelf sys os_context ps = Inr (False, ps')
           \<and> diag ps' = diag ps @ [w]
           \<and> Txt (snd (sched_setaffinity sys (CPU_SET os_context CPU_ZERO))) \<in> set w))
   \<and> (use_sched_setaffinity sys
        \<and> fst (sched_setaffinity sys (CPU_SET os_context CPU_ZERO)) = 0 \<longrightarrow>
        bindThreadSelf sys os_context ps = Inr (True, ps))"
  by (auto simp: bindThreadSelf_def KATANA_WARN_ONCE_def gWarn_def Let_def)

theorem bindThreadSelf_never_fails_witness:
  "use_sched_setaffinity sys_affinity_fails
   \<and> fst (sched_setaffinity sys_affinity_fails (CPU_SET 5 CPU_ZERO)) = - 1
   \<and> (\<exists>ps' w. bindThreadSelf sys_affinity_fails 5 pstate0 = Inr (False, ps')
           \<and> diag ps' = diag pstate0 @ [w] \<and> Txt ''Invalid argument'' \<in> set w)
   \<and> \<not> use_sched_setaffinity sys_all
   \<and> (\<exists>ps'. bindThreadSelf sys_all 5 pstate0 = Inr (False, ps') \<and> bindWarned ps')"
proof -
  have a: "use_sched_setaffinity sys_affinity_fails"
    "fst (sched_setaffinity sys_affinity_fails (CPU_SET 5 CPU_ZERO)) = - 1"
    "snd (sched_setaffinity sys_affinity_fails (CPU_SET 5 CPU_ZERO)) = ''Invalid argument''"
    by (simp_all add: sys_affinity_fails_def plain_system_def)
  have b: "\<not> use_sched_setaffinity sys_all"
    by (simp add: sys_all_def plain_system_def)
  have "\<exists>ps' w. bindThreadSelf sys_affinity_fails 5 pstate0 = Inr (False, ps')
           \<and> diag ps' = diag pstate0 @ [w]
           \<and> Txt (snd (sched_setaffinity sys_affinity_fails (CPU_SET 5 CPU_ZERO))) \<in> set w"
    using bindThreadSelf_never_fails [of sys_affinity_fails 5 pstate0] a(1,2) by blast
  then have one: "\<exists>ps' w. bindThreadSelf sys_affinity_fails 5 pstate0 = Inr (False, ps')
           \<and> diag ps' = diag pstate0 @ [w] \<and> Txt ''Invalid argument'' \<in> set w"
    unfolding a(3) .
  have two: "\<exists>ps'. bindThreadSelf sys_all 5 pstate0 = Inr (False, ps') \<and> bindWarned ps'"
    using bindThreadSelf_never_fails [of sys_all 5 pstate0] b by blast
  from a(1,2) one b two show ?thesis by simp
qed

section \<open>The cache\<close>

text \<open>
  C9. When the first call of \<open>getHWTopo\<close> (the cache is empty) returns a topology,
  the cache holds it, and every call in a state whose cache holds it returns the
  same topology and leaves the state as it is, whatever the files and the library
  would yield now: the build pipeline does not run again.
\<close>

theorem getHWTopo_cached:
  assumes "data ps = None" and "getHWTopo sys ps = Inr (t, ps1)"
  shows "data ps1 = Some t
    \<and> getHWTopo sys' ps1 = Inr (t, ps1)
    \<and> (\<forall>ps2. data ps2 = Some t \<longrightarrow> getHWTopo sys' ps2 = Inr (t, ps2))"
proof -
  from assms have "data ps1 = Some t"
    by (auto simp: getHWTopo_def split: sum.splits prod.splits)
  moreover have "getHWTopo sys' ps2 = Inr (t, ps2)" if "data ps2 = Some t" for ps2
    using that by (simp add: getHWTopo_def)
  ultimately show ?thesis by simp
qed

theorem getHWTopo_cached_witness:
  "data pstate0 = None
   \<and> getHWTopo sys_12 pstate0 = Inr (topoOf sys_12 three_records, snd (projr (getHWTopo sys_12 pstate0)))
   \<and> getHWTopo sys_unreadable (snd (projr (getHWTopo sys_12 pstate0)))
       = Inr (topoOf sys_12 three_records, snd (projr (getHWTopo sys_12 pstate0)))
   \<and> makeHWTopo sys_unreadable (snd (projr (getHWTopo sys_12 pstate0))) = Inl SysDie"
proof -
  have a: "data pstate0 = None" by (simp add: pstate0_def)
  have p: "parseCPUInfo sys_12 pstate0 = Inr (three_records, snd (projr (parseCPUInfo sys_12 pstate0)))"
    by code_simp
  have b: "getHWTopo sys_12 pstate0
     = Inr (topoOf sys_12 three_records, snd (projr (getHWTopo sys_12 pstate0)))"
    using a by (subst (1 2) getHWTopo_def, subst (1 2) makeHWTopo_def, subst (1 2) p) simp
  have c: "makeHWTopo sys_unreadable ps = Inl SysDie" for ps
    by (simp add: makeHWTopo_def parseCPUInfo_def sys_unreadable_def plain_system_def)
  from getHWTopo_cached [OF a b, of sys_unreadable] a b c show ?thesis by simp
qed

section \<open>A field line before the first processor line\<close>

lemma parse_lines_other:
  "\<forall>l \<in> set pre. classify l = Other \<Longrightarrow> parse_lines dbg (pre @ rest) st = parse_lines dbg rest st"
  by (induction pre) (simp_all add: parse_line_def parse_classified_def)

lemma parse_line_field_first:
  assumes "classify line \<in> {PhysicalId num, Siblings num, CoreId num, CpuCores num}"
    and "int_ok num"
  shows "parse_line dbg line (- 1, []) = Inl OutOfRange"
  using assms by (auto simp: parse_line_def parse_classified_def set_field_def at_update_def)

text \<open>
  C10. If the first line that \<open>parseCPUInfo\<close> recognises is a field line (physical
  id, siblings, core id or cpu cores, with a number that fits an \<open>int\<close>), then
  \<open>vals.at(cur)\<close> is reached with \<open>cur = -1\<close> on the empty vector and the parse
  ends with the out-of-range failure; the line is not skipped.
\<close>

theorem field_before_processor_is_out_of_range:
  assumes "\<forall>l \<in> set pre. classify l = Other"
    and "classify line \<in> {PhysicalId num, Siblings num, CoreId num, CpuCores num}"
    and "int_ok num"
  shows "parse_lines dbg (pre @ line # rest) (- 1, []) = Inl OutOfRange
    \<and> (cpuinfo_file sys = Some (pre @ line # rest) \<longrightarrow> parseCPUInfo sys ps = Inl OutOfRange)"
proof -
  have "parse_lines dbg (pre @ line # rest) (- 1, []) = Inl OutOfRange" for dbg
    using parse_lines_other [OF assms(1)] parse_line_field_first [OF assms(2,3)] by simp
  then show ?thesis by (simp add: parseCPUInfo_def)
qed

theorem field_before_processor_is_out_of_range_witness:
  "classify ''model name : x'' = Other
   \<and> classify ''core id : 0'' = CoreId 0 \<and> int_ok 0
   \<and> parse_lines False ([''model name : x''] @ ''core id : 0'' # [''processor : 0'']) (- 1, [])
       = Inl OutOfRange"
proof -
  have a0: "classify ''model name : x'' = Other" by code_simp
  then have a: "\<forall>l \<in> set [''model name : x'']. classify l = Other" by simp
  have b: "classify ''core id : 0'' = CoreId 0" by code_simp
  have c: "int_ok 0" by (simp add: int_ok_def)
  have b': "classify ''core id : 0'' \<in> {PhysicalId 0, Siblings 0, CoreId 0, CpuCores 0}"
    using b by simp
  from field_before_processor_is_out_of_range [OF a b' c, of False "[''processor : 0'']"] a0 b c
  show ?thesis by simp
qed

section \<open>The records that the parser returns\<close>

lemma parse_lines_classified: "parse_lines dbg ls st = parse_all dbg (map classify ls) st"
  by (induction ls arbitrary: st) (simp_all add: parse_line_def split: sum.splits)

lemma parse_all_append:
  "parse_all dbg (xs @ ys) st =
     (case parse_all dbg xs st of Inl e \<Rightarrow> Inl e | Inr st' \<Rightarrow> parse_all dbg ys st')"
  by (induction xs arbitrary: st) (simp_all split: sum.splits)

lemma parse_all_other: "list_all (\<lambda>cl. cl = Other) pre \<Longrightarrow> parse_all dbg pre st = Inr st"
  by (induction pre) (simp_all add: parse_classified_def)

lemma parse_classified_field:
  assumes "field_ok cl" and "0 \<le> cur" and "nat cur < length vals"
  shows "parse_classified dbg cl (cur, vals)
    = Inr (cur, vals[nat cur := apply_field cl (vals ! nat cur)])"
  using assms by (cases cl) (simp_all add: parse_classified_def set_field_def at_update_def)

lemma parse_all_fields:
  assumes "list_all field_ok fs" and "0 \<le> cur" and "nat cur < length vals"
  shows "parse_all dbg fs (cur, vals)
    = Inr (cur, vals[nat cur := fold apply_field fs (vals ! nat cur)])"
  using assms
proof (induction fs arbitrary: vals)
  case Nil
  then show ?case by simp
next
  case (Cons cl fs)
  let ?vals = "vals[nat cur := apply_field cl (vals ! nat cur)]"
  have step: "parse_classified dbg cl (cur, vals) = Inr (cur, ?vals)"
    using Cons.prems by (simp add: parse_classified_field)
  have "parse_all dbg fs (cur, ?vals)
    = Inr (cur, ?vals[nat cur := fold apply_field fs (?vals ! nat cur)])"
    using Cons.prems by (intro Cons.IH) simp_all
  then show ?case
    using step Cons.prems(3) by simp
qed

lemma at_update_last:
  assumes "0 \<le> n" and "length xs = nat n"
  shows "at_update (xs @ [y]) n f = Inr (xs @ [f y])"
proof -
  have "nat n = length xs" using assms(2) by simp
  then show ?thesis using assms(1) by (simp add: at_update_def)
qed

lemma parse_classified_processor:
  assumes "0 \<le> n" and "n < 2 ^ 31 - 1" and "cur < n" and "length vals \<le> nat n"
  shows "parse_classified dbg (Processor n) (cur, vals)
    = Inr (n, vals @ replicate (nat n - length vals) cpuinfo0 @ [cpuinfo0\<lparr>proc := word_of_int n\<rparr>])"
proof -
  define xs where "xs = vals @ replicate (nat n - length vals) cpuinfo0"
  have len: "length xs = nat n"
    using assms(4) by (simp add: xs_def)
  have "nat (n + 1) - length vals = Suc (nat n - length vals)"
    using assms(1,4) by linarith
  then have r: "resize vals (nat (n + 1)) = xs @ [cpuinfo0]"
    using assms(1,4) by (simp add: resize_def replicate_append_same xs_def)
  have a: "at_update (xs @ [cpuinfo0]) n (\<lambda>c. c\<lparr>proc := word_of_int n\<rparr>)
    = Inr (xs @ [cpuinfo0\<lparr>proc := word_of_int n\<rparr>])"
    using assms(1) len by (rule at_update_last)
  have ok: "int_ok n"
    using assms(1,2) by (simp add: int_ok_def)
  have "parse_classified dbg (Processor n) (cur, vals)
    = Inr (n, xs @ [cpuinfo0\<lparr>proc := word_of_int n\<rparr>])"
    using assms(1,2,3) ok by (simp add: parse_classified_def r a)
  then show ?thesis by (simp add: xs_def)
qed

lemma map_filter_snoc:
  "List.map_filter f (xs @ [x]) = List.map_filter f xs @ (case f x of None \<Rightarrow> [] | Some v \<Rightarrow> [v])"
  by (simp add: List.map_filter_def split: option.splits)

lemma fold_apply_field_proc: "proc (fold apply_field fs c) = proc c"
proof (induction fs rule: rev_induct)
  case Nil
  then show ?case by simp
next
  case (snoc cl fs)
  then show ?case by (cases cl) simp_all
qed

lemma fold_apply_field_physid:
  "physid (fold apply_field fs c) =
     (case List.map_filter physid_of fs of [] \<Rightarrow> physid c | v # vs \<Rightarrow> word_of_int (last (v # vs)))"
proof (induction fs rule: rev_induct)
  case Nil
  then show ?case by (simp add: List.map_filter_def)
next
  case (snoc cl fs)
  then show ?case
    by (cases cl) (simp_all add: map_filter_snoc split: list.splits)
qed

lemma fold_apply_field_sib:
  "sib (fold apply_field fs c) =
     (case List.map_filter sib_of fs of [] \<Rightarrow> sib c | v # vs \<Rightarrow> word_of_int (last (v # vs)))"
proof (induction fs rule: rev_induct)
  case Nil
  then show ?case by (simp add: List.map_filter_def)
next
  case (snoc cl fs)
  then show ?case
    by (cases cl) (simp_all add: map_filter_snoc split: list.splits)
qed

lemma fold_apply_field_coreid:
  "coreid (fold apply_field fs c) =
     (case List.map_filter coreid_of fs of [] \<Rightarrow> coreid c | v # vs \<Rightarrow> word_of_int (last (v # vs)))"
proof (induction fs rule: rev_induct)
  case Nil
  then show ?case by (simp add: List.map_filter_def)
next
  case (snoc cl fs)
  then show ?case
    by (cases cl) (simp_all add: map_filter_snoc split: list.splits)
qed

lemma fold_apply_field_cpucores:
  "cpucores (fold apply_field fs c) =
     (case List.map_filter cpucores_of fs of [] \<Rightarrow> cpucores c | v # vs \<Rightarrow> word_of_int (last (v # vs)))"
proof (induction fs rule: rev_induct)
  case Nil
  then show ?case by (simp add: List.map_filter_def)
next
  case (snoc cl fs)
  then show ?case
    by (cases cl) (simp_all add: map_filter_snoc split: list.splits)
qed

lemma fields_of_block:
  "fields (fold apply_field fs (cpuinfo0\<lparr>proc := word_of_int n\<rparr>)) = expected_fields (n, fs)"
  by (simp add: fields_def expected_fields_def last_value_def fold_apply_field_proc
      fold_apply_field_physid fold_apply_field_sib fold_apply_field_coreid
      fold_apply_field_cpucores cpuinfo0_def split: list.splits)

lemma blocks_ok_snoc:
  assumes "blocks_ok (bs @ [b])"
  shows "blocks_ok bs" and "block_ok b" and "\<forall>m \<in> fst ` set bs. m < fst b"
    and "last_index bs < fst b"
proof -
  show ok: "blocks_ok bs" and b: "block_ok b" and lt: "\<forall>m \<in> fst ` set bs. m < fst b"
    using assms by (auto simp: blocks_ok_def sorted_wrt_append)
  show "last_index bs < fst b"
  proof (cases "bs = []")
    case True
    then show ?thesis using b by (simp add: last_index_def block_ok_def)
  next
    case False
    then have "fst (last bs) \<in> fst ` set bs" by simp
    with lt False show ?thesis by (simp add: last_index_def)
  qed
qed

lemma cpuinfo_lines_snoc:
  "cpuinfo_lines (bs @ [b]) = cpuinfo_lines bs @ Processor (fst b) # snd b"
  by (simp add: cpuinfo_lines_def)

lemma parse_blocks:
  assumes "blocks_ok bs"
  shows "\<exists>vals. parse_all dbg (cpuinfo_lines bs) (- 1, []) = Inr (last_index bs, vals)
     \<and> length vals = nat (last_index bs + 1)
     \<and> (\<forall>b \<in> set bs. nat (fst b) < length vals \<and> fields (vals ! nat (fst b)) = expected_fields b)
     \<and> (\<forall>i < length vals. int i \<notin> fst ` set bs \<longrightarrow> vals ! i = cpuinfo0)"
  using assms
proof (induction bs rule: rev_induct)
  case Nil
  then show ?case by (simp add: cpuinfo_lines_def last_index_def)
next
  case (snoc b bs)
  obtain n fs where b: "b = (n, fs)" by (cases b)
  from blocks_ok_snoc [OF snoc.prems] b
  have ok: "blocks_ok bs" and bo: "block_ok (n, fs)" and lt: "\<forall>m \<in> fst ` set bs. m < n"
    and li: "last_index bs < n"
    by simp_all
  from snoc.IH [OF ok] obtain vals where
    p: "parse_all dbg (cpuinfo_lines bs) (- 1, []) = Inr (last_index bs, vals)"
    and len: "length vals = nat (last_index bs + 1)"
    and recs: "\<forall>b \<in> set bs. nat (fst b) < length vals
                 \<and> fields (vals ! nat (fst b)) = expected_fields b"
    and gaps: "\<forall>i < length vals. int i \<notin> fst ` set bs \<longrightarrow> vals ! i = cpuinfo0"
    by blast
  from bo have n0: "0 \<le> n" and n1: "n < 2 ^ 31 - 1" and fo: "list_all field_ok fs"
    by (simp_all add: block_ok_def)
  have lv: "length vals \<le> nat n"
    using len li by linarith
  define c where "c = cpuinfo0\<lparr>proc := word_of_int n\<rparr>"
  define xs where "xs = vals @ replicate (nat n - length vals) cpuinfo0"
  have lx: "nat n = length xs"
    using lv by (simp add: xs_def)
  have step1: "parse_classified dbg (Processor n) (last_index bs, vals) = Inr (n, xs @ [c])"
    using parse_classified_processor [OF n0 n1 li lv, of dbg] by (simp add: xs_def c_def)
  have "nat n < length (xs @ [c])"
    using lx by simp
  from parse_all_fields [OF fo n0 this, of dbg]
  have step2: "parse_all dbg fs (n, xs @ [c]) = Inr (n, xs @ [fold apply_field fs c])"
    using lx by simp
  define vals' where "vals' = xs @ [fold apply_field fs c]"
  have P: "parse_all dbg (cpuinfo_lines (bs @ [b])) (- 1, []) = Inr (last_index (bs @ [b]), vals')"
    using p step1 step2 by (simp add: cpuinfo_lines_snoc parse_all_append b vals'_def last_index_def)
  have L: "length vals' = nat (last_index (bs @ [b]) + 1)"
    using lx n0 by (simp add: vals'_def last_index_def b)
  have old: "vals' ! i = vals ! i" if "i < length vals" for i
    using that by (simp add: vals'_def xs_def nth_append)
  have new: "vals' ! nat n = fold apply_field fs c"
    using lx by (simp add: vals'_def)
  have R: "\<forall>b' \<in> set (bs @ [b]). nat (fst b') < length vals'
             \<and> fields (vals' ! nat (fst b')) = expected_fields b'"
  proof
    fix b' assume "b' \<in> set (bs @ [b])"
    then consider "b' = b" | "b' \<in> set bs" by auto
    then show "nat (fst b') < length vals' \<and> fields (vals' ! nat (fst b')) = expected_fields b'"
    proof cases
      case 1
      have "nat n < length vals'" using lx by (simp add: vals'_def)
      moreover have "fields (vals' ! nat n) = expected_fields (n, fs)"
        unfolding new c_def by (rule fields_of_block)
      ultimately show ?thesis using 1 b by simp
    next
      case 2
      with recs have r: "nat (fst b') < length vals"
        and f: "fields (vals ! nat (fst b')) = expected_fields b'" by simp_all
      have "length vals \<le> length vals'" by (simp add: vals'_def xs_def)
      with r f old [OF r] show ?thesis by simp
    qed
  qed
  have G: "\<forall>i < length vals'. int i \<notin> fst ` set (bs @ [b]) \<longrightarrow> vals' ! i = cpuinfo0"
  proof (intro allI impI)
    fix i assume i: "i < length vals'" and notin: "int i \<notin> fst ` set (bs @ [b])"
    from notin b have "int i \<noteq> n" and nb: "int i \<notin> fst ` set bs" by auto
    with n0 have "i \<noteq> nat n" by auto
    with i lx have ix: "i < length xs" by (simp add: vals'_def)
    show "vals' ! i = cpuinfo0"
    proof (cases "i < length vals")
      case True
      with gaps nb old show ?thesis by simp
    next
      case False
      with ix show ?thesis by (simp add: vals'_def xs_def nth_append)
    qed
  qed
  from P L R G show ?case by blast
qed

lemma set_numa_nodes_fields:
  "set_numa_nodes sys cs ps = Inr (cs', ps') \<Longrightarrow> map fields cs' = map fields cs"
proof (induction cs arbitrary: ps cs' ps')
  case Nil
  then show ?case by simp
next
  case (Cons c cs)
  from Cons.prems obtain n ps1 cs1 where
    "set_numa_nodes sys cs ps1 = Inr (cs1, ps')" and "cs' = c\<lparr>numaNode := n\<rparr> # cs1"
    by (auto split: sum.splits prod.splits)
  with Cons.IH [of ps1 cs1 ps'] show ?case by (simp add: fields_def)
qed

lemma processors_of_fields:
  "list_all field_ok fs \<Longrightarrow> List.map_filter processor_of fs = []"
proof (induction fs)
  case Nil
  then show ?case by (simp add: List.map_filter_def)
next
  case (Cons cl fs)
  then show ?case by (cases cl) (simp_all add: List.map_filter_simps)
qed

lemma processors_of_others:
  "list_all (\<lambda>cl. cl = Other) pre \<Longrightarrow> List.map_filter processor_of pre = []"
  by (induction pre) (simp_all add: List.map_filter_simps)

lemma map_filter_append_list:
  "List.map_filter f (xs @ ys) = List.map_filter f xs @ List.map_filter f ys"
  by (simp add: List.map_filter_def)

lemma processors_of_blocks:
  "list_all block_ok bs \<Longrightarrow> List.map_filter processor_of (cpuinfo_lines bs) = map fst bs"
proof (induction bs)
  case Nil
  then show ?case by (simp add: cpuinfo_lines_def List.map_filter_simps)
next
  case (Cons b bs)
  then have "List.map_filter processor_of (snd b) = []"
    by (simp add: block_ok_def processors_of_fields)
  with Cons show ?case
    by (simp add: cpuinfo_lines_def List.map_filter_simps map_filter_append_list)
qed

lemma distinct_processors_blocks:
  assumes "map classify ls = pre @ cpuinfo_lines bs"
    and "list_all (\<lambda>cl. cl = Other) pre" and "blocks_ok bs"
  shows "distinct_processors ls = length bs"
proof -
  have "List.map_filter processor_of (map classify ls) = map fst bs"
    using assms by (simp add: map_filter_append_list processors_of_others
        processors_of_blocks blocks_ok_def)
  moreover have "distinct (map fst bs)"
    using assms(3) by (simp add: blocks_ok_def strict_sorted_iff)
  ultimately show ?thesis
    using distinct_card [of "map fst bs"] by (simp add: distinct_processors_def)
qed

lemma last_index_contiguous:
  assumes "map fst bs = map int [0..<length bs]"
  shows "nat (last_index bs + 1) = length bs"
proof (cases "bs = []")
  case True
  then show ?thesis by (simp add: last_index_def)
next
  case False
  then have "fst (last bs) = last (map fst bs)"
    by (simp add: last_map)
  also have "\<dots> = int (length bs - 1)"
    using False unfolding assms by (simp add: last_map)
  finally have "fst (last bs) = int (length bs - 1)" .
  moreover from False have "0 < length bs" by simp
  ultimately show ?thesis using False by (simp add: last_index_def)
qed

text \<open>
  Where the parser does what the specification says. Let the input consist of
  unrecognised lines followed by blocks, each a processor line with the lines after it
  up to the next processor line; let the processor indices be not negative, below
  \<open>INT_MAX\<close> and strictly increasing, and let every number of a field line fit an
  \<open>int\<close>. Then the loop of \<open>parseCPUInfo\<close> returns, \<open>parseCPUInfo\<close> returns
  when NUMA is unavailable, and whenever \<open>parseCPUInfo\<close> returns: the length of the
  sequence is the last processor index plus one; the record at the index of a block has
  that index as processor id, and its physical id, siblings, core id and cpu cores are
  the last values that the block gives them, zero when the block never sets them; the
  records at the other indices are zero in these five fields; and when the indices are
  0, 1, 2, ... without a gap, the length is the number of distinct processor lines.
\<close>

lemma parseCPUInfo_blocks:
  assumes "cpuinfo_file sys = Some ls"
    and "map classify ls = pre @ cpuinfo_lines bs"
    and "list_all (\<lambda>cl. cl = Other) pre"
    and "blocks_ok bs"
  shows "(\<exists>vals0. parse_lines (debug_build sys) ls (- 1, []) = Inr (last_index bs, vals0))
    \<and> (numa_unavailable sys \<and> \<not> numaAvail ps \<longrightarrow>
         (\<exists>vals ps'. parseCPUInfo sys ps = Inr (vals, ps')))
    \<and> (\<forall>vals ps'. parseCPUInfo sys ps = Inr (vals, ps') \<longrightarrow>
         length vals = nat (last_index bs + 1)
         \<and> (\<forall>b \<in> set bs. nat (fst b) < length vals
               \<and> fields (vals ! nat (fst b)) = expected_fields b)
         \<and> (\<forall>i < length vals. int i \<notin> fst ` set bs \<longrightarrow> fields (vals ! i) = (0, 0, 0, 0, 0))
         \<and> distinct_processors ls = length bs
         \<and> (map fst bs = map int [0..<length bs] \<longrightarrow> length vals = distinct_processors ls))"
proof -
  from parse_blocks [OF assms(4), of "debug_build sys"] obtain vals0 where
    p: "parse_all (debug_build sys) (cpuinfo_lines bs) (- 1, []) = Inr (last_index bs, vals0)"
    and len: "length vals0 = nat (last_index bs + 1)"
    and recs: "\<forall>b \<in> set bs. nat (fst b) < length vals0
                 \<and> fields (vals0 ! nat (fst b)) = expected_fields b"
    and gaps: "\<forall>i < length vals0. int i \<notin> fst ` set bs \<longrightarrow> vals0 ! i = cpuinfo0"
    by blast
  have pl: "parse_lines (debug_build sys) ls (- 1, []) = Inr (last_index bs, vals0)"
    using p assms(2,3) by (simp add: parse_lines_classified parse_all_append parse_all_other)
  then have pc: "parseCPUInfo sys ps = set_numa_nodes sys vals0 ps"
    using assms(1) by (simp add: parseCPUInfo_def)
  have one: "\<exists>vals0. parse_lines (debug_build sys) ls (- 1, []) = Inr (last_index bs, vals0)"
    using pl by blast
  have two: "numa_unavailable sys \<and> \<not> numaAvail ps \<longrightarrow>
         (\<exists>vals ps'. parseCPUInfo sys ps = Inr (vals, ps'))"
    unfolding pc using set_numa_nodes_unavailable [of sys ps vals0] by blast
  have dp: "distinct_processors ls = length bs"
    using assms(2,3,4) by (rule distinct_processors_blocks)
  have three: "length vals = nat (last_index bs + 1)
         \<and> (\<forall>b \<in> set bs. nat (fst b) < length vals
               \<and> fields (vals ! nat (fst b)) = expected_fields b)
         \<and> (\<forall>i < length vals. int i \<notin> fst ` set bs \<longrightarrow> fields (vals ! i) = (0, 0, 0, 0, 0))
         \<and> distinct_processors ls = length bs
         \<and> (map fst bs = map int [0..<length bs] \<longrightarrow> length vals = distinct_processors ls)"
    if r: "parseCPUInfo sys ps = Inr (vals, ps')" for vals ps'
  proof -
    from r pc have mf: "map fields vals = map fields vals0"
      by (simp add: set_numa_nodes_fields)
    then have l: "length vals = length vals0"
      by (rule map_eq_imp_length_eq)
    have f: "fields (vals ! i) = fields (vals0 ! i)" if "i < length vals0" for i
      using that l nth_map [of i vals fields] nth_map [of i vals0 fields] mf by simp
    have a: "length vals = nat (last_index bs + 1)"
      using l len by simp
    have b: "\<forall>b \<in> set bs. nat (fst b) < length vals
               \<and> fields (vals ! nat (fst b)) = expected_fields b"
      using recs f l by simp
    have c: "\<forall>i < length vals. int i \<notin> fst ` set bs \<longrightarrow> fields (vals ! i) = (0, 0, 0, 0, 0)"
    proof (intro allI impI)
      fix i assume "i < length vals" and "int i \<notin> fst ` set bs"
      with gaps l f [of i] have "fields (vals ! i) = fields cpuinfo0" by simp
      then show "fields (vals ! i) = (0, 0, 0, 0, 0)"
        by (simp add: fields_def cpuinfo0_def)
    qed
    have d: "map fst bs = map int [0..<length bs] \<longrightarrow> length vals = distinct_processors ls"
      using a dp last_index_contiguous [of bs] by simp
    from a b c dp d show ?thesis by (intro conjI)
  qed
  then have three': "\<forall>vals ps'. parseCPUInfo sys ps = Inr (vals, ps') \<longrightarrow>
         length vals = nat (last_index bs + 1)
         \<and> (\<forall>b \<in> set bs. nat (fst b) < length vals
               \<and> fields (vals ! nat (fst b)) = expected_fields b)
         \<and> (\<forall>i < length vals. int i \<notin> fst ` set bs \<longrightarrow> fields (vals ! i) = (0, 0, 0, 0, 0))
         \<and> distinct_processors ls = length bs
         \<and> (map fst bs = map int [0..<length bs] \<longrightarrow> length vals = distinct_processors ls)"
    by (intro allI impI)
  from one two three' show ?thesis by (intro conjI)
qed

lemma parseCPUInfo_blocks_example:
  "cpuinfo_file sys_two_blocks = Some two_blocks
   \<and> map classify two_blocks
       = [Other] @ cpuinfo_lines [(0, [PhysicalId 3, Other]), (1, [CoreId 4, CoreId 5])]
   \<and> blocks_ok [(0, [PhysicalId 3, Other]), (1, [CoreId 4, CoreId 5])]
   \<and> length (fst (projr (parseCPUInfo sys_two_blocks pstate0))) = 2
   \<and> fields (fst (projr (parseCPUInfo sys_two_blocks pstate0)) ! 1) = (1, 0, 0, 5, 0)
   \<and> distinct_processors two_blocks = 2"
proof -
  let ?bs = "[(0 :: int, [PhysicalId 3, Other]), (1, [CoreId 4, CoreId 5])]"
  have a: "cpuinfo_file sys_two_blocks = Some two_blocks"
    by (simp add: sys_two_blocks_def plain_system_def)
  have b: "map classify two_blocks = [Other] @ cpuinfo_lines ?bs"
    by code_simp
  have c: "list_all (\<lambda>cl. cl = Other) [Other]"
    by simp
  have d: "blocks_ok ?bs"
    by code_simp
  have u: "numa_unavailable sys_two_blocks \<and> \<not> numaAvail pstate0"
    by (simp add: numa_unavailable_def sys_two_blocks_def plain_system_def pstate0_def)
  note t = parseCPUInfo_blocks [OF a b c d, of pstate0]
  from t [THEN conjunct2, THEN conjunct1] u
  obtain vals ps' where r: "parseCPUInfo sys_two_blocks pstate0 = Inr (vals, ps')"
    by blast
  note t3 = t [THEN conjunct2, THEN conjunct2, THEN spec, THEN spec, THEN mp, OF r]
  have l: "length vals = nat (last_index ?bs + 1)"
    using t3 by (elim conjE)
  have f: "\<forall>b \<in> set ?bs. nat (fst b) < length vals
             \<and> fields (vals ! nat (fst b)) = expected_fields b"
    using t3 by (elim conjE)
  have n: "distinct_processors two_blocks = length ?bs"
    using t3 by (elim conjE)
  have e: "expected_fields (1, [CoreId 4, CoreId 5]) = (1, 0, 0, 5, 0)"
    by code_simp
  from l have l2: "length vals = 2" by (simp add: last_index_def)
  from f e have f2: "fields (vals ! 1) = (1, 0, 0, 5, 0)" by simp
  from a b d l2 f2 n show ?thesis by (simp add: r)
qed

text \<open>
  C3 at a failing input: /proc/cpuinfo lists the processors 0 and 2 (processor 1 is
  offline). The input has two distinct processor lines, and \<open>parseCPUInfo\<close> returns
  three records: \<open>vals.resize(cur + 1)\<close> fills the gap with a record that belongs to
  no processor line. That record carries the processor id 0, and \<open>makeHWTopo\<close> turns
  it into a third thread, bound to the OS context 0 like the first.
\<close>

theorem gap_in_processor_indices_adds_a_record:
  "map classify sparse_cpuinfo = [Processor 0, PhysicalId 0, Processor 2, PhysicalId 1]
   \<and> distinct_processors sparse_cpuinfo = 2
   \<and> length (fst (projr (parseCPUInfo sys_sparse pstate0))) = 3
   \<and> map fields (fst (projr (parseCPUInfo sys_sparse pstate0)))
       = [(0, 0, 0, 0, 0), (0, 0, 0, 0, 0), (2, 1, 0, 0, 0)]
   \<and> maxThreads (machineTopoInfo (fst (projr (makeHWTopo sys_sparse pstate0)))) = 3
   \<and> map osContext (threadTopoInfo (fst (projr (makeHWTopo sys_sparse pstate0)))) = [0, 2, 0]"
  by code_simp

end
